theory Spec2Isabelle
  imports Main "HOL-Library.AList" "HOL-Library.Extended_Nat"
begin

section \<open>The structural model that the solver consumes\<close>

text \<open>
  \<^verbatim>\<open>generate.py\<close> starts with \<^verbatim>\<open>from crossword import *\<close>: the classes
  \<^verbatim>\<open>Variable\<close> and \<^verbatim>\<open>Crossword\<close> live in a module that is not part of the
  sources at hand. What the solver reads from them is taken as data: a slot with its four
  identity fields, and a crossword with its slots, its word list and its overlap lookup.
  Python sets (\<^verbatim>\<open>crossword.variables\<close>, \<^verbatim>\<open>crossword.words\<close>, every domain) are
  lists here: the list order stands for the order in which the set is iterated, and a set
  filled by adding words one after the other is iterated in the order of the additions.

  Modelled from the spec: a slot is identified by row, column, direction and length; the
  overlap lookup gives, for a pair of slots, either nothing (\<^verbatim>\<open>None\<close>) or the pair of
  offsets at which the two words must carry the same letter.
\<close>

datatype direction = ACROSS | DOWN

datatype variable =
  Variable (var_i: nat) (var_j: nat) (var_direction: direction) (var_length: nat)

record crossword =
  variables :: "variable list"
  words :: "string list"
  overlaps :: "variable \<times> variable \<Rightarrow> (nat \<times> nat) option"

text \<open>
  Modelled from the spec: \<^verbatim>\<open>Crossword.neighbors\<close> is missing from the sources. The
  spec calls \<open>n\<close> a neighbor of \<open>v\<close> when \<open>n\<close> is another slot that overlaps with \<open>v\<close>.
\<close>

definition neighbors :: "crossword \<Rightarrow> variable \<Rightarrow> variable list" where
  "neighbors cw var =
     filter (\<lambda>v. v \<noteq> var \<and> overlaps cw (v, var) \<noteq> None) (variables cw)"

section \<open>Exceptions, subscripts\<close>

datatype error = KeyError | TypeError | IndexError

type_synonym domains = "(variable \<times> string list) list"
type_synonym assignment = "(variable \<times> string) list"

text \<open>\<^verbatim>\<open>d[k]\<close> on a dict, and \<^verbatim>\<open>w[k]\<close> on a string with \<open>k \<ge> 0\<close>.\<close>

definition getitem :: "('k \<times> 'v) list \<Rightarrow> 'k \<Rightarrow> error + 'v" where
  "getitem d k = (case map_of d k of None \<Rightarrow> Inl KeyError | Some v \<Rightarrow> Inr v)"

definition char_at :: "string \<Rightarrow> nat \<Rightarrow> error + char" where
  "char_at w k = (if k < length w then Inr (w ! k) else Inl IndexError)"

section \<open>CrosswordCreator\<close>

text \<open>\<^verbatim>\<open>__init__\<close>: every slot starts with the whole word list.\<close>

definition init_domains :: "crossword \<Rightarrow> domains" where
  "init_domains cw = map (\<lambda>var. (var, words cw)) (variables cw)"

subsection \<open>Node consistency\<close>

definition enforce_node_consistency :: "domains \<Rightarrow> domains" where
  "enforce_node_consistency ds =
     map (\<lambda>(var, d). (var, filter (\<lambda>word. length word = var_length var) d)) ds"

subsection \<open>revise\<close>

text \<open>
  \<^verbatim>\<open>any(xWord[xi] == yWord[yi] for yWord in self.domains[y])\<close>: both subscripts are
  evaluated for each \<^verbatim>\<open>yWord\<close> in turn, and the scan stops at the first match.
\<close>

fun any_match :: "string \<Rightarrow> nat \<Rightarrow> nat \<Rightarrow> string list \<Rightarrow> error + bool" where
  "any_match xWord xi yi [] = Inr False"
| "any_match xWord xi yi (yWord # rest) =
     (case char_at xWord xi of Inl e \<Rightarrow> Inl e
      | Inr a \<Rightarrow> (case char_at yWord yi of Inl e \<Rightarrow> Inl e
          | Inr b \<Rightarrow> if a = b then Inr True else any_match xWord xi yi rest))"

text \<open>The loop over \<^verbatim>\<open>self.domains[x]\<close> that fills \<^verbatim>\<open>newXDomain\<close>.\<close>

fun revise_loop :: "domains \<Rightarrow> variable \<Rightarrow> nat \<Rightarrow> nat \<Rightarrow> string list \<Rightarrow> error + string list" where
  "revise_loop ds y xi yi [] = Inr []"
| "revise_loop ds y xi yi (xWord # rest) =
     (case getitem ds y of Inl e \<Rightarrow> Inl e
      | Inr yd \<Rightarrow> (case any_match xWord xi yi yd of Inl e \<Rightarrow> Inl e
          | Inr keep \<Rightarrow> (case revise_loop ds y xi yi rest of Inl e \<Rightarrow> Inl e
              | Inr newXDomain \<Rightarrow> Inr (if keep then xWord # newXDomain else newXDomain))))"

text \<open>
  \<^verbatim>\<open>self.crossword.overlaps[x, y][0]\<close> raises \<^verbatim>\<open>TypeError\<close> when the lookup gives
  \<^verbatim>\<open>None\<close>. The domains are written only in the last statement, so a raised exception
  leaves them as they were.
\<close>

definition revise :: "crossword \<Rightarrow> domains \<Rightarrow> variable \<Rightarrow> variable \<Rightarrow> error + (bool \<times> domains)" where
  "revise cw ds x y =
     (case overlaps cw (x, y) of None \<Rightarrow> Inl TypeError
      | Some (xi, yi) \<Rightarrow> (case getitem ds x of Inl e \<Rightarrow> Inl e
          | Inr xd \<Rightarrow> (case revise_loop ds y xi yi xd of Inl e \<Rightarrow> Inl e
              | Inr newXDomain \<Rightarrow>
                  (let revisionMade = (set newXDomain \<noteq> set xd)
                   in Inr (revisionMade,
                           if revisionMade then AList.update x newXDomain ds else ds)))))"

text \<open>\<^verbatim>\<open>self.domains\<close> after a call of \<^verbatim>\<open>revise\<close>, whether it returned or raised.\<close>

definition domains_after_revise :: "crossword \<Rightarrow> domains \<Rightarrow> variable \<Rightarrow> variable \<Rightarrow> domains" where
  "domains_after_revise cw ds x y = (case revise cw ds x y of Inl e \<Rightarrow> ds | Inr (b, ds') \<Rightarrow> ds')"

subsection \<open>Assignments\<close>

text \<open>
  An assignment maps slots to strings, so the test \<^verbatim>\<open>type(assignment[variable]) != str\<close>
  of \<^verbatim>\<open>assignment_complete\<close> never fires. \<^verbatim>\<open>consistent\<close> checks duplicates first,
  then lengths, then the arcs between assigned neighbors, and returns at the first failure.
\<close>

definition assignment_complete :: "domains \<Rightarrow> assignment \<Rightarrow> bool" where
  "assignment_complete ds a =
     list_all (\<lambda>variable. variable \<in> fst ` set a) (map fst ds)"

fun duplicate_word :: "string list \<Rightarrow> bool" where
  "duplicate_word [] = False"
| "duplicate_word (w # rest) = (w \<in> set rest \<or> duplicate_word rest)"

definition assigned_arcs :: "crossword \<Rightarrow> assignment \<Rightarrow> (variable \<times> variable) list" where
  "assigned_arcs cw a =
     concat (map (\<lambda>var. map (\<lambda>neighbour. (var, neighbour))
                          (filter (\<lambda>item. item \<in> fst ` set a) (neighbors cw var)))
                 (map fst a))"

fun arcs_agree :: "crossword \<Rightarrow> assignment \<Rightarrow> (variable \<times> variable) list \<Rightarrow> error + bool" where
  "arcs_agree cw a [] = Inr True"
| "arcs_agree cw a ((x, y) # rest) =
     (case overlaps cw (x, y) of None \<Rightarrow> Inl TypeError
      | Some (xi, yi) \<Rightarrow> (case getitem a x of Inl e \<Rightarrow> Inl e
          | Inr xw \<Rightarrow> (case char_at xw xi of Inl e \<Rightarrow> Inl e
              | Inr cx \<Rightarrow> (case getitem a y of Inl e \<Rightarrow> Inl e
                  | Inr yw \<Rightarrow> (case char_at yw yi of Inl e \<Rightarrow> Inl e
                      | Inr cy \<Rightarrow> if cx \<noteq> cy then Inr False
                                  else arcs_agree cw a rest)))))"

definition consistent :: "crossword \<Rightarrow> assignment \<Rightarrow> error + bool" where
  "consistent cw a =
     (if duplicate_word (map (\<lambda>key. the (map_of a key)) (map fst a)) then Inr False
      else if list_ex (\<lambda>variable. var_length variable \<noteq> length (the (map_of a variable)))
                      (map fst a) then Inr False
      else arcs_agree cw a (assigned_arcs cw a))"

subsection \<open>ac3\<close>

text \<open>
  What \<^verbatim>\<open>revise\<close> keeps: a word of \<open>x\<close> for which the scan of \<open>y\<close>'s domain finds
  a match. Each revision that reports a change removes a word, which bounds the loop.
\<close>

definition supported :: "domains \<Rightarrow> variable \<Rightarrow> nat \<Rightarrow> nat \<Rightarrow> string \<Rightarrow> bool" where
  "supported ds y xi yi w = (\<exists>yd. getitem ds y = Inr yd \<and> any_match w xi yi yd = Inr True)"

lemma revise_loop_filter:
  "revise_loop ds y xi yi xd = Inr r \<Longrightarrow> r = filter (supported ds y xi yi) xd"
  by (induction xd arbitrary: r) (auto simp: supported_def split: sum.splits if_splits)

definition dom_total :: "domains \<Rightarrow> nat" where
  "dom_total ds = sum_list (map (\<lambda>p. length (snd p)) ds)"

lemma dom_total_update:
  "map_of ds x = Some xd \<Longrightarrow> length new < length xd \<Longrightarrow>
   dom_total (AList.update x new ds) < dom_total ds"
  by (induction ds) (auto simp: dom_total_def)

lemma revise_InrE:
  assumes "revise cw ds x y = Inr (b, ds')"
  obtains xi yi xd r where "overlaps cw (x, y) = Some (xi, yi)" "getitem ds x = Inr xd"
    "revise_loop ds y xi yi xd = Inr r" "b = (set r \<noteq> set xd)"
    "ds' = (if b then AList.update x r ds else ds)"
proof (cases "overlaps cw (x, y)")
  case None
  with assms show ?thesis by (simp add: revise_def)
next
  case (Some p)
  obtain xi yi where p: "p = (xi, yi)" by (cases p)
  show ?thesis
  proof (cases "getitem ds x")
    case (Inl e)
    with assms Some p show ?thesis by (simp add: revise_def)
  next
    case (Inr xd)
    show ?thesis
    proof (cases "revise_loop ds y xi yi xd")
      case (Inl e)
      with assms Some p Inr show ?thesis by (simp add: revise_def)
    next
      case r: (Inr r)
      have "b = (set r \<noteq> set xd) \<and> ds' = (if b then AList.update x r ds else ds)"
      proof (cases "set r = set xd")
        case True
        with assms Some p Inr r show ?thesis by (simp add: revise_def)
      next
        case False
        with assms Some p Inr r show ?thesis by (simp add: revise_def)
      qed
      with Some p Inr r that show ?thesis by blast
    qed
  qed
qed

lemma revise_unchanged: "revise cw ds x y = Inr (False, ds') \<Longrightarrow> ds' = ds"
  by (erule revise_InrE) simp

lemma revise_shrinks:
  assumes "revise cw ds x y = Inr (True, ds')"
  shows "dom_total ds' < dom_total ds"
proof -
  from assms obtain xi yi xd r where
    g: "getitem ds x = Inr xd" and l: "revise_loop ds y xi yi xd = Inr r"
    and ne: "set r \<noteq> set xd" and d: "ds' = AList.update x r ds"
    by (elim revise_InrE) simp
  from l have r: "r = filter (supported ds y xi yi) xd" by (rule revise_loop_filter)
  with ne obtain w where "w \<in> set xd" "\<not> supported ds y xi yi w" by auto
  then have "length r < length xd" unfolding r by (rule length_filter_less)
  moreover from g have "map_of ds x = Some xd"
    by (auto simp: getitem_def split: option.splits)
  ultimately show ?thesis unfolding d by (rule dom_total_update[rotated])
qed

text \<open>
  The worklist loop. The second component is \<^verbatim>\<open>self.domains\<close> when the call ends,
  also when it ends by an exception.
\<close>

definition initial_arcs :: "crossword \<Rightarrow> domains \<Rightarrow> (variable \<times> variable) list" where
  "initial_arcs cw ds =
     concat (map (\<lambda>var. map (\<lambda>neighbour. (var, neighbour)) (neighbors cw var)) (map fst ds))"

function ac3_loop :: "crossword \<Rightarrow> domains \<Rightarrow> (variable \<times> variable) list \<Rightarrow> (error + bool) \<times> domains" where
  "ac3_loop cw ds [] = (Inr True, ds)"
| "ac3_loop cw ds ((x, y) # arcs) =
     (case revise cw ds x y of Inl e \<Rightarrow> (Inl e, ds)
      | Inr (revisionMade, ds') \<Rightarrow>
          if revisionMade then
            (case getitem ds' x of Inl e \<Rightarrow> (Inl e, ds')
             | Inr xd \<Rightarrow>
                 if length xd = 0 then (Inr False, ds')
                 else ac3_loop cw ds'
                        (arcs @ map (\<lambda>neighbour. (neighbour, x))
                                    (filter (\<lambda>item. item \<noteq> y) (neighbors cw x))))
          else ac3_loop cw ds' arcs)"
  by pat_completeness auto
termination
proof (relation "measures [\<lambda>(cw, ds, arcs). dom_total ds, \<lambda>(cw, ds, arcs). length arcs]")
  show "wf (measures [\<lambda>(cw, ds, arcs). dom_total ds, \<lambda>(cw, ds, arcs). length arcs])" by simp
next
  fix cw ds x y arcs p revisionMade ds' xd
  assume "revise cw ds x y = Inr p" "(revisionMade, ds') = p" "revisionMade"
  then have "dom_total ds' < dom_total ds" using revise_shrinks by auto
  then show "((cw, ds', arcs @ map (\<lambda>neighbour. (neighbour, x))
                 (filter (\<lambda>item. item \<noteq> y) (neighbors cw x))), cw, ds, (x, y) # arcs)
         \<in> measures [\<lambda>(cw, ds, arcs). dom_total ds, \<lambda>(cw, ds, arcs). length arcs]" by simp
next
  fix cw ds x y arcs p revisionMade ds'
  assume "revise cw ds x y = Inr p" "(revisionMade, ds') = p" "\<not> revisionMade"
  then have "ds' = ds" using revise_unchanged by auto
  then show "((cw, ds', arcs), cw, ds, (x, y) # arcs)
         \<in> measures [\<lambda>(cw, ds, arcs). dom_total ds, \<lambda>(cw, ds, arcs). length arcs]" by simp
qed


definition ac3 :: "crossword \<Rightarrow> domains \<Rightarrow> (variable \<times> variable) list option \<Rightarrow> (error + bool) \<times> domains" where
  "ac3 cw ds arcs =
     ac3_loop cw ds (case arcs of None \<Rightarrow> initial_arcs cw ds | Some given \<Rightarrow> given)"

subsection \<open>order\_domain\_values\<close>

fun ruled_out_by :: "crossword \<Rightarrow> variable \<Rightarrow> variable \<Rightarrow> string \<Rightarrow> string list \<Rightarrow> nat \<Rightarrow> error + nat" where
  "ruled_out_by cw var neighbour w [] choicesRuledOut = Inr choicesRuledOut"
| "ruled_out_by cw var neighbour w (neighbourDomain # rest) choicesRuledOut =
     (case overlaps cw (var, neighbour) of None \<Rightarrow> Inl TypeError
      | Some (vi, ni) \<Rightarrow> (case char_at w vi of Inl e \<Rightarrow> Inl e
          | Inr a \<Rightarrow> (case char_at neighbourDomain ni of Inl e \<Rightarrow> Inl e
              | Inr b \<Rightarrow> ruled_out_by cw var neighbour w rest
                          (if a \<noteq> b then choicesRuledOut + 1 else choicesRuledOut))))"

fun ruled_out :: "crossword \<Rightarrow> domains \<Rightarrow> variable \<Rightarrow> string \<Rightarrow> variable list \<Rightarrow> nat \<Rightarrow> error + nat" where
  "ruled_out cw ds var w [] choicesRuledOut = Inr choicesRuledOut"
| "ruled_out cw ds var w (neighbour # rest) choicesRuledOut =
     (case getitem ds neighbour of Inl e \<Rightarrow> Inl e
      | Inr nd \<Rightarrow> (case ruled_out_by cw var neighbour w nd choicesRuledOut of Inl e \<Rightarrow> Inl e
          | Inr n \<Rightarrow> ruled_out cw ds var w rest n))"

fun domain_on_choices :: "crossword \<Rightarrow> domains \<Rightarrow> variable \<Rightarrow> assignment \<Rightarrow> string list \<Rightarrow> (string \<times> nat) list \<Rightarrow> error + (string \<times> nat) list" where
  "domain_on_choices cw ds var a [] domainOnChoices = Inr domainOnChoices"
| "domain_on_choices cw ds var a (w # rest) domainOnChoices =
     (case ruled_out cw ds var w
             (filter (\<lambda>item. item \<notin> fst ` set a) (neighbors cw var)) 0 of
        Inl e \<Rightarrow> Inl e
      | Inr n \<Rightarrow> domain_on_choices cw ds var a rest (AList.update w n domainOnChoices))"

definition order_domain_values :: "crossword \<Rightarrow> domains \<Rightarrow> variable \<Rightarrow> assignment \<Rightarrow> error + string list" where
  "order_domain_values cw ds var a =
     (case getitem ds var of Inl e \<Rightarrow> Inl e
      | Inr d \<Rightarrow> (case domain_on_choices cw ds var a d [] of Inl e \<Rightarrow> Inl e
          | Inr domainOnChoices \<Rightarrow>
              Inr (sort_key (\<lambda>k. the (map_of domainOnChoices k)) (map fst domainOnChoices))))"

subsection \<open>select\_unassigned\_variable\<close>

text \<open>
  \<^verbatim>\<open>lowestDomainVal\<close> starts as \<^verbatim>\<open>float('inf')\<close>. The two dicts keep their keys
  in insertion order; \<^verbatim>\<open>[key for key in d][0]\<close> raises \<^verbatim>\<open>IndexError\<close> on an empty
  dict.
\<close>

fun fewest_loop :: "domains \<Rightarrow> variable list \<Rightarrow> enat \<Rightarrow> (variable \<times> nat) list \<Rightarrow> (variable \<times> nat) list" where
  "fewest_loop ds [] lowestDomainVal fewestRemainingDomains = fewestRemainingDomains"
| "fewest_loop ds (variable # rest) lowestDomainVal fewestRemainingDomains =
     (let n = length (the (map_of ds variable)) in
      if enat n < lowestDomainVal then fewest_loop ds rest (enat n) [(variable, n)]
      else if enat n = lowestDomainVal
        then fewest_loop ds rest lowestDomainVal (AList.update variable n fewestRemainingDomains)
      else fewest_loop ds rest lowestDomainVal fewestRemainingDomains)"

fun degree_loop :: "crossword \<Rightarrow> variable list \<Rightarrow> nat \<Rightarrow> (variable \<times> nat) list \<Rightarrow> (variable \<times> nat) list" where
  "degree_loop cw [] largestDegreeVal largestDegree = largestDegree"
| "degree_loop cw (variable # rest) largestDegreeVal largestDegree =
     (let n = length (neighbors cw variable) in
      if n > largestDegreeVal then degree_loop cw rest n [(variable, n)]
      else if n = largestDegreeVal
        then degree_loop cw rest largestDegreeVal (AList.update variable n largestDegree)
      else degree_loop cw rest largestDegreeVal largestDegree)"

definition first_key :: "('k \<times> 'v) list \<Rightarrow> error + 'k" where
  "first_key d = (case d of [] \<Rightarrow> Inl IndexError | (key, _) # _ \<Rightarrow> Inr key)"

definition select_unassigned_variable :: "crossword \<Rightarrow> domains \<Rightarrow> assignment \<Rightarrow> error + variable" where
  "select_unassigned_variable cw ds a =
     (let fewestRemainingDomains =
            fewest_loop ds (filter (\<lambda>var. var \<notin> fst ` set a) (map fst ds)) \<infinity> []
      in if length fewestRemainingDomains = 1 then first_key fewestRemainingDomains
         else first_key (degree_loop cw (map fst fewestRemainingDomains) 0 []))"

text \<open>What the two loops leave in their dicts.\<close>

lemma fewest_loop_inv:
  assumes "fst ` set few = {v \<in> seen. enat (length (the (map_of ds v))) = low}"
    and "\<forall>v\<in>seen. low \<le> enat (length (the (map_of ds v)))"
  shows "\<exists>low'. fst ` set (fewest_loop ds vs low few)
              = {v \<in> seen \<union> set vs. enat (length (the (map_of ds v))) = low'}
           \<and> (\<forall>v\<in>seen \<union> set vs. low' \<le> enat (length (the (map_of ds v))))
           \<and> (low' = low \<or> (\<exists>v\<in>set vs. enat (length (the (map_of ds v))) = low'))"
  using assms
proof (induction vs arbitrary: low few seen)
  case Nil
  then show ?case by auto
next
  case (Cons v vs)
  let ?n = "length (the (map_of ds v))"
  consider (less) "enat ?n < low" | (eq) "enat ?n = low" | (more) "low < enat ?n"
    by (meson linorder_cases)
  then show ?case
  proof cases
    case less
    have a: "fst ` set [(v, ?n)] = {u \<in> insert v seen. enat (length (the (map_of ds u))) = enat ?n}"
      using less Cons.prems(2) by (auto simp: leD)
    have b: "\<forall>u\<in>insert v seen. enat ?n \<le> enat (length (the (map_of ds u)))"
      using less Cons.prems(2) by (metis insert_iff order_le_less order_less_le_trans)
    from Cons.IH[OF a b] obtain low' where
      "fst ` set (fewest_loop ds vs (enat ?n) [(v, ?n)])
         = {u \<in> insert v seen \<union> set vs. enat (length (the (map_of ds u))) = low'}"
      "\<forall>u\<in>insert v seen \<union> set vs. low' \<le> enat (length (the (map_of ds u)))"
      "low' = enat ?n \<or> (\<exists>u\<in>set vs. enat (length (the (map_of ds u))) = low')"
      by blast
    with less show ?thesis by (intro exI[of _ low']) (auto simp: Let_def)
  next
    case eq
    have a: "fst ` set (AList.update v ?n few)
               = {u \<in> insert v seen. enat (length (the (map_of ds u))) = low}"
      using eq Cons.prems(1) by (auto simp: dom_update)
    have b: "\<forall>u\<in>insert v seen. low \<le> enat (length (the (map_of ds u)))"
      using eq Cons.prems(2) by auto
    from Cons.IH[OF a b] obtain low' where
      "fst ` set (fewest_loop ds vs low (AList.update v ?n few))
         = {u \<in> insert v seen \<union> set vs. enat (length (the (map_of ds u))) = low'}"
      "\<forall>u\<in>insert v seen \<union> set vs. low' \<le> enat (length (the (map_of ds u)))"
      "low' = low \<or> (\<exists>u\<in>set vs. enat (length (the (map_of ds u))) = low')"
      by blast
    with eq show ?thesis by (intro exI[of _ low']) (auto simp: Let_def)
  next
    case more
    have a: "fst ` set few = {u \<in> insert v seen. enat (length (the (map_of ds u))) = low}"
      using more Cons.prems(1) by auto
    have b: "\<forall>u\<in>insert v seen. low \<le> enat (length (the (map_of ds u)))"
      using more Cons.prems(2) by auto
    from Cons.IH[OF a b] obtain low' where
      "fst ` set (fewest_loop ds vs low few)
         = {u \<in> insert v seen \<union> set vs. enat (length (the (map_of ds u))) = low'}"
      "\<forall>u\<in>insert v seen \<union> set vs. low' \<le> enat (length (the (map_of ds u)))"
      "low' = low \<or> (\<exists>u\<in>set vs. enat (length (the (map_of ds u))) = low')"
      by blast
    with more show ?thesis by (intro exI[of _ low']) (auto simp: Let_def)
  qed
qed

lemma degree_loop_inv:
  assumes "fst ` set deg = {v \<in> seen. length (neighbors cw v) = largest}"
    and "\<forall>v\<in>seen. length (neighbors cw v) \<le> largest"
  shows "\<exists>largest'. fst ` set (degree_loop cw vs largest deg)
              = {v \<in> seen \<union> set vs. length (neighbors cw v) = largest'}
           \<and> (\<forall>v\<in>seen \<union> set vs. length (neighbors cw v) \<le> largest')
           \<and> (largest' = largest \<or> (\<exists>v\<in>set vs. length (neighbors cw v) = largest'))"
  using assms
proof (induction vs arbitrary: largest deg seen)
  case Nil
  then show ?case by auto
next
  case (Cons v vs)
  let ?n = "length (neighbors cw v)"
  consider (more) "largest < ?n" | (eq) "?n = largest" | (less) "?n < largest"
    by (meson linorder_cases)
  then show ?case
  proof cases
    case more
    have a: "fst ` set [(v, ?n)] = {u \<in> insert v seen. length (neighbors cw u) = ?n}"
      using more Cons.prems(2) by auto
    have b: "\<forall>u\<in>insert v seen. length (neighbors cw u) \<le> ?n"
      using more Cons.prems(2) by auto
    from Cons.IH[OF a b] obtain l' where
      "fst ` set (degree_loop cw vs ?n [(v, ?n)])
         = {u \<in> insert v seen \<union> set vs. length (neighbors cw u) = l'}"
      "\<forall>u\<in>insert v seen \<union> set vs. length (neighbors cw u) \<le> l'"
      "l' = ?n \<or> (\<exists>u\<in>set vs. length (neighbors cw u) = l')"
      by blast
    with more show ?thesis by (intro exI[of _ l']) (auto simp: Let_def)
  next
    case eq
    have a: "fst ` set (AList.update v ?n deg)
               = {u \<in> insert v seen. length (neighbors cw u) = largest}"
      using eq Cons.prems(1) by (auto simp: dom_update)
    have b: "\<forall>u\<in>insert v seen. length (neighbors cw u) \<le> largest"
      using eq Cons.prems(2) by auto
    from Cons.IH[OF a b] obtain l' where
      "fst ` set (degree_loop cw vs largest (AList.update v ?n deg))
         = {u \<in> insert v seen \<union> set vs. length (neighbors cw u) = l'}"
      "\<forall>u\<in>insert v seen \<union> set vs. length (neighbors cw u) \<le> l'"
      "l' = largest \<or> (\<exists>u\<in>set vs. length (neighbors cw u) = l')"
      by blast
    with eq show ?thesis by (intro exI[of _ l']) (auto simp: Let_def)
  next
    case less
    have a: "fst ` set deg = {u \<in> insert v seen. length (neighbors cw u) = largest}"
      using less Cons.prems(1) by auto
    have b: "\<forall>u\<in>insert v seen. length (neighbors cw u) \<le> largest"
      using less Cons.prems(2) by auto
    from Cons.IH[OF a b] obtain l' where
      "fst ` set (degree_loop cw vs largest deg)
         = {u \<in> insert v seen \<union> set vs. length (neighbors cw u) = l'}"
      "\<forall>u\<in>insert v seen \<union> set vs. length (neighbors cw u) \<le> l'"
      "l' = largest \<or> (\<exists>u\<in>set vs. length (neighbors cw u) = l')"
      by blast
    with less show ?thesis by (intro exI[of _ l']) (auto simp: Let_def)
  qed
qed



lemma first_key_Inr: "first_key d = Inr k \<Longrightarrow> k \<in> fst ` set d"
  by (cases d) (auto simp: first_key_def)

lemma first_key_single: "length d = 1 \<Longrightarrow> first_key d = Inr k \<Longrightarrow> fst ` set d = {k}"
  by (cases d) (auto simp: first_key_def)

lemma first_key_nonempty: "d \<noteq> [] \<Longrightarrow> \<exists>k. first_key d = Inr k"
  by (cases d) (auto simp: first_key_def)

lemma select_unassigned_variable_Inr:
  assumes "select_unassigned_variable cw ds a = Inr v"
  shows "v \<in> fst ` set ds" and "v \<notin> fst ` set a"
    and "\<forall>u\<in>fst ` set ds - fst ` set a.
           length (the (map_of ds v)) \<le> length (the (map_of ds u))"
    and "\<forall>u\<in>fst ` set ds - fst ` set a.
           length (the (map_of ds u)) = length (the (map_of ds v))
           \<longrightarrow> length (neighbors cw u) \<le> length (neighbors cw v)"
proof -
  let ?us = "filter (\<lambda>var. var \<notin> fst ` set a) (map fst ds)"
  let ?F = "fewest_loop ds ?us \<infinity> []"
  have U: "set ?us = fst ` set ds - fst ` set a" by auto
  from fewest_loop_inv[of "[]" "{}" ds \<infinity> ?us] obtain low where
    F: "fst ` set ?F = {u \<in> set ?us. enat (length (the (map_of ds u))) = low}"
    and low: "\<forall>u\<in>set ?us. low \<le> enat (length (the (map_of ds u)))"
    by auto
  have *: "v \<in> fst ` set ?F \<and> (\<forall>u\<in>fst ` set ?F. length (neighbors cw u) \<le> length (neighbors cw v))"
  proof (cases "length ?F = 1")
    case True
    with assms have "first_key ?F = Inr v" by (simp add: select_unassigned_variable_def)
    with True have "fst ` set ?F = {v}" by (rule first_key_single)
    then show ?thesis by simp
  next
    case False
    let ?D = "degree_loop cw (map fst ?F) 0 []"
    from False assms have "first_key ?D = Inr v" by (simp add: select_unassigned_variable_def)
    then have v: "v \<in> fst ` set ?D" by (rule first_key_Inr)
    from degree_loop_inv[of "[]" "{}" cw 0 "map fst ?F"] obtain l where
      "fst ` set ?D = {u \<in> set (map fst ?F). length (neighbors cw u) = l}"
      "\<forall>u\<in>set (map fst ?F). length (neighbors cw u) \<le> l"
      by auto
    with v show ?thesis by auto
  qed
  with F have v: "v \<in> set ?us" and vl: "enat (length (the (map_of ds v))) = low" by auto
  from v U show "v \<in> fst ` set ds" and "v \<notin> fst ` set a" by auto
  from low vl U show "\<forall>u\<in>fst ` set ds - fst ` set a.
           length (the (map_of ds v)) \<le> length (the (map_of ds u))"
    by (metis enat_ord_simps(1))
  from * F vl U show "\<forall>u\<in>fst ` set ds - fst ` set a.
           length (the (map_of ds u)) = length (the (map_of ds v))
           \<longrightarrow> length (neighbors cw u) \<le> length (neighbors cw v)"
    by auto
qed

lemma select_unassigned_variable_total:
  assumes "\<exists>u\<in>fst ` set ds. u \<notin> fst ` set a"
  shows "\<exists>v. select_unassigned_variable cw ds a = Inr v"
proof -
  let ?us = "filter (\<lambda>var. var \<notin> fst ` set a) (map fst ds)"
  let ?F = "fewest_loop ds ?us \<infinity> []"
  from assms obtain u where u: "u \<in> set ?us" by auto
  from fewest_loop_inv[of "[]" "{}" ds \<infinity> ?us] obtain low where
    F: "fst ` set ?F = {u \<in> set ?us. enat (length (the (map_of ds u))) = low}"
    and low: "\<forall>u\<in>set ?us. low \<le> enat (length (the (map_of ds u)))"
    and att: "low = \<infinity> \<or> (\<exists>u\<in>set ?us. enat (length (the (map_of ds u))) = low)"
    by auto
  from low u have "low \<noteq> \<infinity>" by force
  with att obtain u' where "u' \<in> set ?us" "enat (length (the (map_of ds u'))) = low" by blast
  then have "u' \<in> fst ` set ?F" unfolding F by simp
  then have Fne: "?F \<noteq> []" by force
  show ?thesis
  proof (cases "length ?F = 1")
    case True
    with first_key_nonempty[OF Fne] show ?thesis
      by (simp add: select_unassigned_variable_def)
  next
    case False
    let ?D = "degree_loop cw (map fst ?F) 0 []"
    from degree_loop_inv[of "[]" "{}" cw 0 "map fst ?F"] obtain l where
      D: "fst ` set ?D = {u \<in> set (map fst ?F). length (neighbors cw u) = l}"
      and l: "\<forall>u\<in>set (map fst ?F). length (neighbors cw u) \<le> l"
      and att: "l = 0 \<or> (\<exists>u\<in>set (map fst ?F). length (neighbors cw u) = l)"
      by auto
    from Fne obtain w where w: "w \<in> set (map fst ?F)" by (cases ?F) auto
    have "\<exists>k. k \<in> fst ` set ?D"
    proof (cases "l = 0")
      case True
      with l w have "length (neighbors cw w) = l" by auto
      with w have "w \<in> fst ` set ?D" unfolding D by simp
      then show ?thesis ..
    next
      case False
      with att obtain w' where "w' \<in> set (map fst ?F)" "length (neighbors cw w') = l" by blast
      then have "w' \<in> fst ` set ?D" unfolding D by simp
      then show ?thesis ..
    qed
    then have "?D \<noteq> []" by force
    from first_key_nonempty[OF this] False show ?thesis
      by (simp add: select_unassigned_variable_def)
  qed
qed

lemma select_unassigned_variable_complete:
  assumes "\<forall>u\<in>fst ` set ds. u \<in> fst ` set a"
  shows "select_unassigned_variable cw ds a = Inl IndexError"
proof -
  from assms have "filter (\<lambda>var. var \<notin> fst ` set a) (map fst ds) = []"
    by (auto simp: filter_empty_conv)
  then show ?thesis by (simp add: select_unassigned_variable_def first_key_def)
qed


subsection \<open>backtrack and solve\<close>

text \<open>
  \<^verbatim>\<open>backtrack\<close> is modelled with a log of what it did: \<open>Enter\<close> for each
  invocation of \<^verbatim>\<open>backtrack\<close>, \<open>Try var val\<close> for each candidate taken from the
  \<^verbatim>\<open>for\<close> loop. The log is not in the source; it makes the order of the search
  observable.

  The loop variable \<^verbatim>\<open>assignment\<close> is the fourth argument of \<open>try_values\<close>. It is the
  caller's dict until the first recursive call fails, and a deep copy of
  \<^verbatim>\<open>assignmentCopy\<close> from then on. The recursive call receives the dict after
  \<^verbatim>\<open>assignment[var] = value\<close>. What a failed call wrote into the dict it was given
  is not read again: the caller rebinds \<^verbatim>\<open>assignment\<close> right after the call.
\<close>

datatype event = Enter | Try variable string

lemma unassigned_after_update:
  "fst ` set ds - fst ` set (AList.update var val a) = fst ` set ds - fst ` set a - {var}"
  by (auto simp: dom_update)

lemma card_unassigned_less:
  assumes "b \<in> fst ` set ds" "b \<notin> fst ` set a"
  shows "2 * card (fst ` set ds - fst ` set a - {b}) + 1 < 2 * card (fst ` set ds - fst ` set a)"
proof -
  have "finite (fst ` set ds - fst ` set a)" by simp
  moreover from assms have "b \<in> fst ` set ds - fst ` set a" by simp
  ultimately have "card (fst ` set ds - fst ` set a - {b}) < card (fst ` set ds - fst ` set a)"
    by (rule card_Diff1_less)
  then show ?thesis by simp
qed

function backtrack :: "crossword \<Rightarrow> domains \<Rightarrow> assignment \<Rightarrow> event list \<times> (error + assignment option)"
  and try_values :: "crossword \<Rightarrow> domains \<Rightarrow> variable \<Rightarrow> assignment \<Rightarrow> string list \<Rightarrow> event list \<times> (error + assignment option)"
where
  "backtrack cw ds a =
     (if assignment_complete ds a then ([Enter], Inr (Some a))
      else (case select_unassigned_variable cw ds a of Inl e \<Rightarrow> ([Enter], Inl e)
        | Inr var \<Rightarrow> (case getitem ds var of Inl e \<Rightarrow> ([Enter], Inl e)
            | Inr d \<Rightarrow> (case try_values cw ds var a d of (t, r) \<Rightarrow> (Enter # t, r)))))"
| "try_values cw ds var a [] = ([], Inr None)"
| "try_values cw ds var a (val # rest) =
     (let assignmentCopy = AList.update var val a in
      case consistent cw assignmentCopy of Inl e \<Rightarrow> ([Try var val], Inl e)
      | Inr ok \<Rightarrow>
          if ok then
            (case backtrack cw ds (AList.update var val a) of (t, result) \<Rightarrow>
               if result \<noteq> Inr None then (Try var val # t, result)
               else (case try_values cw ds var assignmentCopy rest of (t', r) \<Rightarrow>
                       (Try var val # t @ t', r)))
          else (case try_values cw ds var a rest of (t, r) \<Rightarrow> (Try var val # t, r)))"
  by pat_completeness auto
termination
proof (relation "measures [\<lambda>p. case p of
        Inl (cw, ds, a) \<Rightarrow> 2 * card (fst ` set ds - fst ` set a)
      | Inr (cw, ds, var, a, vals) \<Rightarrow> 2 * card (fst ` set ds - fst ` set a - {var}) + 1,
      \<lambda>p. case p of Inl _ \<Rightarrow> 0 | Inr (cw, ds, var, a, vals) \<Rightarrow> length vals]",
    goal_cases)
  case 1
  show ?case by simp
next
  case (2 cw ds a b ba)
  from select_unassigned_variable_Inr(1,2)[OF 2(2)]
  have "2 * card (fst ` set ds - fst ` set a - {b}) + 1 < 2 * card (fst ` set ds - fst ` set a)"
    by (rule card_unassigned_less)
  then show ?case by simp
next
  case 3
  show ?case by (simp add: unassigned_after_update)
next
  case 4
  then show ?case by (simp add: unassigned_after_update)
next
  case 5
  show ?case by simp
qed

text \<open>\<^verbatim>\<open>solve\<close> drops what \<^verbatim>\<open>ac3\<close> returns; an exception of \<^verbatim>\<open>ac3\<close> ends it.\<close>

definition solve :: "crossword \<Rightarrow> domains \<Rightarrow> event list \<times> (error + assignment option)" where
  "solve cw ds =
     (case ac3 cw (enforce_node_consistency ds) None of
        (Inl e, ds') \<Rightarrow> ([], Inl e)
      | (Inr revised, ds') \<Rightarrow> backtrack cw ds' [])"

declare backtrack.simps [simp del]

section \<open>A small crossword\<close>

text \<open>
  Three slots of length 3: \<open>ex_a\<close> across the top row, \<open>ex_d\<close> down the left column,
  \<open>ex_b\<close> across the bottom row. \<open>ex_d\<close> crosses \<open>ex_a\<close> in its first cell and
  \<open>ex_b\<close> in its last; \<open>ex_a\<close> and \<open>ex_b\<close> share no cell. \<open>ex_ds\<close> is the domain
  store that node and arc consistency leave for the word list of \<open>ex_cw\<close>.
\<close>

definition ex_a :: variable where "ex_a = Variable 0 0 ACROSS 3"
definition ex_d :: variable where "ex_d = Variable 0 0 DOWN 3"
definition ex_b :: variable where "ex_b = Variable 2 0 ACROSS 3"

definition ex_overlaps :: "variable \<times> variable \<Rightarrow> (nat \<times> nat) option" where
  "ex_overlaps p =
     (if p = (ex_a, ex_d) then Some (0, 0) else if p = (ex_d, ex_a) then Some (0, 0)
      else if p = (ex_d, ex_b) then Some (2, 0) else if p = (ex_b, ex_d) then Some (0, 2)
      else None)"

definition ex_cw :: crossword where
  "ex_cw = \<lparr> variables = [ex_a, ex_d, ex_b],
             words = [''cat'', ''cot'', ''tag'', ''dog'', ''ox''],
             overlaps = ex_overlaps \<rparr>"

lemmas ex_defs = ex_a_def ex_d_def ex_b_def ex_overlaps_def ex_cw_def

definition ex_ds :: domains where
  "ex_ds = [(ex_a, [''cat'', ''cot'']), (ex_d, [''cat'', ''cot'']), (ex_b, [''tag''])]"

section \<open>Node consistency is idempotent\<close>

text \<open>
  C9. Running \<^verbatim>\<open>enforce_node_consistency\<close> a second time changes nothing: for every
  domain store, two runs in a row leave the same domains as one run.
\<close>

theorem enforce_node_consistency_idempotent:
  "enforce_node_consistency (enforce_node_consistency ds) = enforce_node_consistency ds"
  by (induction ds) (auto simp: enforce_node_consistency_def)

section \<open>revise on a pair without overlap\<close>

text \<open>
  C3 as stated says that \<^verbatim>\<open>revise(x, y)\<close> returns false and leaves the domains alone when
  \<open>x\<close> and \<open>y\<close> have no overlap. On the two across slots of the small crossword, which are
  distinct and share no cell, the call raises \<^verbatim>\<open>TypeError\<close> instead of returning.
\<close>

theorem revise_no_overlap_counterexample:
  "ex_a \<noteq> ex_b \<and> overlaps ex_cw (ex_a, ex_b) = None \<and>
   revise ex_cw (init_domains ex_cw) ex_a ex_b = Inl TypeError"
  by (simp add: ex_defs revise_def)

text \<open>
  C3, amended. When the overlap lookup for \<open>(x, y)\<close> gives \<^verbatim>\<open>None\<close>,
  \<^verbatim>\<open>revise(x, y)\<close> raises \<^verbatim>\<open>TypeError\<close> (it subscripts \<^verbatim>\<open>None\<close> in its first
  statement), whatever the domains are. It returns no boolean, and since the exception comes
  before any write, every domain stays as it was.
\<close>

theorem revise_no_overlap_raises:
  "overlaps cw (x, y) = None \<Longrightarrow>
   revise cw ds x y = Inl TypeError \<and> domains_after_revise cw ds x y = ds"
  by (simp add: revise_def domains_after_revise_def)

theorem revise_no_overlap_raises_witness:
  "overlaps ex_cw (ex_a, ex_b) = None \<and>
   revise ex_cw (init_domains ex_cw) ex_a ex_b = Inl TypeError \<and>
   domains_after_revise ex_cw (init_domains ex_cw) ex_a ex_b = init_domains ex_cw"
  using revise_no_overlap_raises [of ex_cw ex_a ex_b "init_domains ex_cw"]
  by (simp add: ex_defs)

section \<open>Domains only shrink\<close>

definition dom_of :: "domains \<Rightarrow> variable \<Rightarrow> string set" where
  "dom_of ds v = (case map_of ds v of None \<Rightarrow> {} | Some d \<Rightarrow> set d)"

lemma dom_of_update:
  "dom_of (AList.update x r ds) v = (if v = x then set r else dom_of ds v)"
  by (simp add: dom_of_def update_conv')

lemma revise_subset:
  assumes "revise cw ds x y = Inr (b, ds')"
  shows "dom_of ds' v \<subseteq> dom_of ds v" and "map fst ds' = map fst ds"
proof -
  from assms obtain xi yi xd r where
    g: "getitem ds x = Inr xd" and l: "revise_loop ds y xi yi xd = Inr r"
    and d: "ds' = (if b then AList.update x r ds else ds)"
    by (elim revise_InrE)
  from l have r: "r = filter (supported ds y xi yi) xd" by (rule revise_loop_filter)
  from g have m: "map_of ds x = Some xd" by (auto simp: getitem_def split: option.splits)
  then have "dom_of ds x = set xd" by (simp add: dom_of_def)
  with r d show "dom_of ds' v \<subseteq> dom_of ds v" by (auto simp: dom_of_update)
  from m have "x \<in> fst ` set ds" by (metis map_of_eq_None_iff option.distinct(1))
  then have "map fst (AList.update x r ds) = map fst ds" by (simp add: update_keys)
  with d show "map fst ds' = map fst ds" by simp
qed


lemma ac3_loop_subset:
  "dom_of (snd (ac3_loop cw ds arcs)) v \<subseteq> dom_of ds v \<and>
   map fst (snd (ac3_loop cw ds arcs)) = map fst ds"
proof (induction cw ds arcs rule: ac3_loop.induct)
  case (1 cw ds)
  show ?case by simp
next
  case (2 cw ds x y arcs)
  show ?case
  proof (cases "revise cw ds x y")
    case (Inl e)
    then show ?thesis by simp
  next
    case (Inr p)
    obtain b ds' where p: "p = (b, ds')" by (cases p)
    note sub = revise_subset(1)[OF Inr[unfolded p], of v] revise_subset(2)[OF Inr[unfolded p]]
    show ?thesis
    proof (cases b)
      case False
      with 2(2)[OF Inr p[symmetric]] sub Inr p show ?thesis by auto
    next
      case True
      show ?thesis
      proof (cases "getitem ds' x")
        case (Inl e)
        with Inr p True sub show ?thesis by simp
      next
        case xd: (Inr xd)
        show ?thesis
        proof (cases "length xd = 0")
          case empty: True
          with Inr p True sub xd show ?thesis by simp
        next
          case False
          with 2(1)[OF Inr p[symmetric] True xd] sub Inr p True xd show ?thesis by auto
        qed
      qed
    qed
  qed
qed

lemma map_of_enforce:
  "map_of (enforce_node_consistency ds) v
     = map_option (filter (\<lambda>word. length word = var_length v)) (map_of ds v)"
  by (induction ds) (auto simp: enforce_node_consistency_def)

text \<open>
  C7. For every slot \<open>v\<close>, the domain of \<open>v\<close> after \<^verbatim>\<open>enforce_node_consistency\<close>,
  after \<^verbatim>\<open>revise(x, y)\<close> (whether it returns or raises), after \<^verbatim>\<open>ac3\<close> with any
  initial arcs (whatever it returns or raises), and after node consistency followed by
  \<^verbatim>\<open>ac3\<close>, is a subset of the domain before: words are removed, never added.
\<close>

theorem monotonic_shrink:
  "dom_of (enforce_node_consistency ds) v \<subseteq> dom_of ds v \<and>
   dom_of (domains_after_revise cw ds x y) v \<subseteq> dom_of ds v \<and>
   dom_of (snd (ac3 cw ds arcs)) v \<subseteq> dom_of ds v \<and>
   dom_of (snd (ac3 cw (enforce_node_consistency ds) arcs)) v \<subseteq> dom_of ds v"
proof -
  have e: "dom_of (enforce_node_consistency ds') v \<subseteq> dom_of ds' v" for ds'
    by (cases "map_of ds' v") (auto simp: dom_of_def map_of_enforce)
  have r: "dom_of (domains_after_revise cw ds x y) v \<subseteq> dom_of ds v"
    by (cases "revise cw ds x y") (auto simp: domains_after_revise_def dest: revise_subset(1))
  have a: "dom_of (snd (ac3 cw ds' arcs)) v \<subseteq> dom_of ds' v" for ds'
    unfolding ac3_def using ac3_loop_subset by blast
  from a[of "enforce_node_consistency ds"] e[of ds]
  have "dom_of (snd (ac3 cw (enforce_node_consistency ds) arcs)) v \<subseteq> dom_of ds v"
    by (rule subset_trans)
  with e r a show ?thesis by blast
qed

section \<open>What select\_unassigned\_variable returns\<close>

text \<open>
  C10. If some slot of the domain store is not in the assignment,
  \<^verbatim>\<open>select_unassigned_variable\<close> returns such a slot, one with the fewest remaining
  words among the unassigned slots and, among those, with the most neighbors. If every slot
  of the domain store is in the assignment it raises \<^verbatim>\<open>IndexError\<close>; \<^verbatim>\<open>backtrack\<close>
  never gets there, since for such an assignment it returns the assignment at once.
\<close>

theorem select_unassigned_variable_contract:
  "((\<exists>u\<in>fst ` set ds. u \<notin> fst ` set a) \<longrightarrow>
      (\<exists>v. select_unassigned_variable cw ds a = Inr v \<and> v \<in> fst ` set ds \<and> v \<notin> fst ` set a \<and>
        (\<forall>u\<in>fst ` set ds - fst ` set a.
           length (the (map_of ds v)) \<le> length (the (map_of ds u))) \<and>
        (\<forall>u\<in>fst ` set ds - fst ` set a.
           length (the (map_of ds u)) = length (the (map_of ds v))
           \<longrightarrow> length (neighbors cw u) \<le> length (neighbors cw v)))) \<and>
   ((\<forall>u\<in>fst ` set ds. u \<in> fst ` set a) \<longrightarrow>
      select_unassigned_variable cw ds a = Inl IndexError \<and>
      backtrack cw ds a = ([Enter], Inr (Some a)))"
proof (intro conjI impI)
  assume "\<exists>u\<in>fst ` set ds. u \<notin> fst ` set a"
  then obtain v where v: "select_unassigned_variable cw ds a = Inr v"
    using select_unassigned_variable_total by blast
  from select_unassigned_variable_Inr[OF v] v
  show "\<exists>v. select_unassigned_variable cw ds a = Inr v \<and> v \<in> fst ` set ds \<and> v \<notin> fst ` set a \<and>
        (\<forall>u\<in>fst ` set ds - fst ` set a.
           length (the (map_of ds v)) \<le> length (the (map_of ds u))) \<and>
        (\<forall>u\<in>fst ` set ds - fst ` set a.
           length (the (map_of ds u)) = length (the (map_of ds v))
           \<longrightarrow> length (neighbors cw u) \<le> length (neighbors cw v))"
    by blast
next
  assume c: "\<forall>u\<in>fst ` set ds. u \<in> fst ` set a"
  then show "select_unassigned_variable cw ds a = Inl IndexError"
    by (rule select_unassigned_variable_complete)
  from c have "assignment_complete ds a"
    by (auto simp: assignment_complete_def list_all_iff)
  then show "backtrack cw ds a = ([Enter], Inr (Some a))"
    by (simp add: backtrack.simps)
qed

theorem select_unassigned_variable_contract_witness:
  "select_unassigned_variable ex_cw ex_ds [(ex_b, ''tag'')] = Inr ex_d \<and>
   select_unassigned_variable ex_cw ex_ds [(ex_b, ''tag''), (ex_d, ''cat''), (ex_a, ''cat'')]
     = Inl IndexError \<and>
   backtrack ex_cw ex_ds [(ex_b, ''tag''), (ex_d, ''cat''), (ex_a, ''cat'')]
     = ([Enter], Inr (Some [(ex_b, ''tag''), (ex_d, ''cat''), (ex_a, ''cat'')]))"
proof -
  have h1: "\<exists>u\<in>fst ` set ex_ds. u \<notin> fst ` set [(ex_b, ''tag'')]"
    by (simp add: ex_ds_def ex_defs)
  have h2: "\<forall>u\<in>fst ` set ex_ds. u \<in> fst ` set [(ex_b, ''tag''), (ex_d, ''cat''), (ex_a, ''cat'')]"
    by (simp add: ex_ds_def)
  have s: "select_unassigned_variable ex_cw ex_ds [(ex_b, ''tag'')] = Inr ex_d"
    by (simp add: select_unassigned_variable_def ex_ds_def ex_defs neighbors_def first_key_def)
  from select_unassigned_variable_contract
         [of ex_ds "[(ex_b, ''tag''), (ex_d, ''cat''), (ex_a, ''cat'')]" ex_cw] h2
       select_unassigned_variable_contract [of ex_ds "[(ex_b, ''tag'')]" ex_cw] h1 s
  show ?thesis by blast
qed

section \<open>The consistency checker against its specification\<close>

text \<open>
  Modelled from the spec: the contract of the structural model, which is not in the sources.
  The slots are pairwise different, the overlap lookup is symmetric under argument swap with
  the offsets swapped, and an offset is a position inside a word of the slot's length.
\<close>

definition wf_crossword :: "crossword \<Rightarrow> bool" where
  "wf_crossword cw =
     (distinct (variables cw) \<and>
      (\<forall>x\<in>set (variables cw). \<forall>y\<in>set (variables cw).
         (case overlaps cw (x, y) of
            None \<Rightarrow> overlaps cw (y, x) = None
          | Some (i, j) \<Rightarrow> overlaps cw (y, x) = Some (j, i) \<and> i < var_length x \<and> j < var_length y)))"

text \<open>
  The three conditions of the specification, over the entries of a partial assignment: no
  word used for two slots, every word as long as its slot, and equal letters at the offsets
  of every overlapping pair of assigned slots.
\<close>

definition agree_at :: "string \<Rightarrow> nat \<Rightarrow> string \<Rightarrow> nat \<Rightarrow> bool" where
  "agree_at wx i wy j = (i < length wx \<and> j < length wy \<and> wx ! i = wy ! j)"

definition is_consistent :: "crossword \<Rightarrow> assignment \<Rightarrow> bool" where
  "is_consistent cw a =
     ((\<forall>(x, wx)\<in>set a. \<forall>(y, wy)\<in>set a. x \<noteq> y \<longrightarrow> wx \<noteq> wy) \<and>
      (\<forall>(x, wx)\<in>set a. length wx = var_length x) \<and>
      (\<forall>(x, wx)\<in>set a. \<forall>(y, wy)\<in>set a. x \<noteq> y \<longrightarrow>
         (case overlaps cw (x, y) of None \<Rightarrow> True | Some (i, j) \<Rightarrow> agree_at wx i wy j)))"

lemma duplicate_word_iff: "duplicate_word ws = (\<not> distinct ws)"
  by (induction ws) auto

lemma dict_values: "distinct (map fst a) \<Longrightarrow> map (\<lambda>key. the (map_of a key)) (map fst a) = map snd a"
  by (induction a) (auto simp: image_iff)

lemma dict_distinct_values:
  assumes "distinct (map fst a)"
  shows "distinct (map snd a) = (\<forall>(x, wx)\<in>set a. \<forall>(y, wy)\<in>set a. x \<noteq> y \<longrightarrow> wx \<noteq> wy)"
  using assms
proof (induction a)
  case Nil
  show ?case by simp
next
  case (Cons p a)
  obtain x wx where p: "p = (x, wx)" by (cases p)
  from Cons.prems p have x: "x \<notin> fst ` set a" and d: "distinct (map fst a)" by auto
  from x have ne: "\<And>y wy. (y, wy) \<in> set a \<Longrightarrow> y \<noteq> x" by force
  have "distinct (map snd (p # a)) = (wx \<notin> snd ` set a \<and> distinct (map snd a))"
    by (simp add: p)
  also have "\<dots> = (wx \<notin> snd ` set a \<and> (\<forall>(x, wx)\<in>set a. \<forall>(y, wy)\<in>set a. x \<noteq> y \<longrightarrow> wx \<noteq> wy))"
    using Cons.IH[OF d] by simp
  also have "\<dots> = (\<forall>(x, wx)\<in>set (p # a). \<forall>(y, wy)\<in>set (p # a). x \<noteq> y \<longrightarrow> wx \<noteq> wy)"
    using ne unfolding p by (simp add: image_iff Ball_def) blast
  finally show ?case .
qed

lemma length_check_iff:
  assumes "distinct (map fst a)"
  shows "list_ex (\<lambda>variable. var_length variable \<noteq> length (the (map_of a variable))) (map fst a)
           = (\<not> (\<forall>(x, wx)\<in>set a. length wx = var_length x))"
proof -
  have "\<And>x wx. (x, wx) \<in> set a \<Longrightarrow> map_of a x = Some wx"
    using assms by (rule map_of_is_SomeI)
  then show ?thesis by (force simp: list_ex_iff)
qed


lemma neighbors_iff:
  "y \<in> set (neighbors cw x) \<longleftrightarrow> y \<in> set (variables cw) \<and> y \<noteq> x \<and> overlaps cw (y, x) \<noteq> None"
  by (auto simp: neighbors_def)

lemma assigned_arcs_iff:
  "(x, y) \<in> set (assigned_arcs cw a) \<longleftrightarrow>
     x \<in> fst ` set a \<and> y \<in> fst ` set a \<and> y \<in> set (neighbors cw x)"
  by (auto simp: assigned_arcs_def)

lemma wf_overlap_swap:
  assumes "wf_crossword cw" "x \<in> set (variables cw)" "y \<in> set (variables cw)"
    "overlaps cw (x, y) = Some (i, j)"
  shows "overlaps cw (y, x) = Some (j, i)" "i < var_length x" "j < var_length y"
proof -
  from assms(1-3) have "case overlaps cw (x, y) of
            None \<Rightarrow> overlaps cw (y, x) = None
          | Some (i, j) \<Rightarrow> overlaps cw (y, x) = Some (j, i) \<and> i < var_length x \<and> j < var_length y"
    unfolding wf_crossword_def by blast
  with assms(4) show "overlaps cw (y, x) = Some (j, i)" "i < var_length x" "j < var_length y"
    by simp_all
qed

lemma arcs_agree_defined:
  assumes "\<forall>(x, y)\<in>set arcs. \<exists>i j wx wy. overlaps cw (x, y) = Some (i, j) \<and>
             map_of a x = Some wx \<and> map_of a y = Some wy \<and> i < length wx \<and> j < length wy"
  shows "arcs_agree cw a arcs =
           Inr (\<forall>(x, y)\<in>set arcs. \<forall>i j. overlaps cw (x, y) = Some (i, j) \<longrightarrow>
                  the (map_of a x) ! i = the (map_of a y) ! j)"
  using assms
proof (induction arcs)
  case Nil
  show ?case by simp
next
  case (Cons p arcs)
  obtain x y where p: "p = (x, y)" by (cases p)
  from Cons.prems p obtain i j wx wy where
    o: "overlaps cw (x, y) = Some (i, j)" and x: "map_of a x = Some wx"
    and y: "map_of a y = Some wy" and i: "i < length wx" and j: "j < length wy"
    by auto
  from Cons.prems have "arcs_agree cw a arcs =
           Inr (\<forall>(x, y)\<in>set arcs. \<forall>i j. overlaps cw (x, y) = Some (i, j) \<longrightarrow>
                  the (map_of a x) ! i = the (map_of a y) ! j)"
    by (intro Cons.IH) simp
  with o x y i j show ?case by (simp add: p getitem_def char_at_def)
qed

lemma consistent_eq:
  assumes wf: "wf_crossword cw" and d: "distinct (map fst a)"
    and sub: "fst ` set a \<subseteq> set (variables cw)"
  shows "consistent cw a = Inr (is_consistent cw a)"
proof -
  let ?A = "\<forall>(x, wx)\<in>set a. \<forall>(y, wy)\<in>set a. x \<noteq> y \<longrightarrow> wx \<noteq> wy"
  let ?B = "\<forall>(x, wx)\<in>set a. length wx = var_length x"
  let ?C = "\<forall>(x, wx)\<in>set a. \<forall>(y, wy)\<in>set a. x \<noteq> y \<longrightarrow>
         (case overlaps cw (x, y) of None \<Rightarrow> True | Some (i, j) \<Rightarrow> agree_at wx i wy j)"
  have spec: "is_consistent cw a = (?A \<and> ?B \<and> ?C)" by (simp add: is_consistent_def)
  have dup: "duplicate_word (map (\<lambda>key. the (map_of a key)) (map fst a)) = (\<not> ?A)"
    by (simp only: dict_values[OF d] duplicate_word_iff dict_distinct_values[OF d])
  have len: "list_ex (\<lambda>variable. var_length variable \<noteq> length (the (map_of a variable))) (map fst a)
               = (\<not> ?B)"
    using d by (rule length_check_iff)
  have get: "map_of a x = Some wx" if "(x, wx) \<in> set a" for x wx
    using d that by (rule map_of_is_SomeI)
  show ?thesis
  proof (cases "?A \<and> ?B")
    case False
    with dup len spec show ?thesis by (auto simp: consistent_def)
  next
    case True
    then have B: "\<And>x wx. (x, wx) \<in> set a \<Longrightarrow> length wx = var_length x" by auto
    have pre: "\<forall>(x, y)\<in>set (assigned_arcs cw a). \<exists>i j wx wy. overlaps cw (x, y) = Some (i, j) \<and>
             map_of a x = Some wx \<and> map_of a y = Some wy \<and> i < length wx \<and> j < length wy"
    proof (clarify)
      fix x y assume "(x, y) \<in> set (assigned_arcs cw a)"
      then have xa: "x \<in> fst ` set a" and ya: "y \<in> fst ` set a" and ov: "overlaps cw (y, x) \<noteq> None"
        by (auto simp: assigned_arcs_iff neighbors_iff)
      from xa obtain wx where wx: "(x, wx) \<in> set a" by auto
      from ya obtain wy where wy: "(y, wy) \<in> set a" by auto
      from ov obtain j i where o: "overlaps cw (y, x) = Some (j, i)" by auto
      from xa ya sub have xv: "x \<in> set (variables cw)" and yv: "y \<in> set (variables cw)" by auto
      from wf_overlap_swap[OF wf yv xv o] B[OF wx] B[OF wy] get[OF wx] get[OF wy]
      have "overlaps cw (x, y) = Some (i, j) \<and>
             map_of a x = Some wx \<and> map_of a y = Some wy \<and> i < length wx \<and> j < length wy"
        by simp
      then show "\<exists>i j wx wy. overlaps cw (x, y) = Some (i, j) \<and>
             map_of a x = Some wx \<and> map_of a y = Some wy \<and> i < length wx \<and> j < length wy"
        by blast
    qed
    have "(\<forall>(x, y)\<in>set (assigned_arcs cw a). \<forall>i j. overlaps cw (x, y) = Some (i, j) \<longrightarrow>
                  the (map_of a x) ! i = the (map_of a y) ! j) = ?C" (is "?L = ?C")
    proof
      assume L: ?L
      show ?C
      proof (clarify)
        fix x wx y wy assume wx: "(x, wx) \<in> set a" and wy: "(y, wy) \<in> set a" and ne: "x \<noteq> y"
        show "case overlaps cw (x, y) of None \<Rightarrow> True | Some (i, j) \<Rightarrow> agree_at wx i wy j"
        proof (cases "overlaps cw (x, y)")
          case None
          then show ?thesis by simp
        next
          case (Some p)
          obtain i j where p: "p = (i, j)" by (cases p)
          from wx have xa: "x \<in> fst ` set a" by (rule image_eqI[rotated]) simp
          from wy have ya: "y \<in> fst ` set a" by (rule image_eqI[rotated]) simp
          from xa ya sub have xv: "x \<in> set (variables cw)" and yv: "y \<in> set (variables cw)"
            by blast+
          note sw = wf_overlap_swap[OF wf xv yv Some[unfolded p]]
          from sw(1) yv ne have "y \<in> set (neighbors cw x)" by (simp add: neighbors_iff)
          with xa ya have "(x, y) \<in> set (assigned_arcs cw a)"
            by (simp add: assigned_arcs_iff)
          with L Some p have "the (map_of a x) ! i = the (map_of a y) ! j" by blast
          with get[OF wx] get[OF wy] sw(2,3) B[OF wx] B[OF wy] Some p
          show ?thesis by (simp add: agree_at_def)
        qed
      qed
    next
      assume C: ?C
      show ?L
      proof (clarify)
        fix x y i j assume arc: "(x, y) \<in> set (assigned_arcs cw a)"
          and o: "overlaps cw (x, y) = Some (i, j)"
        from arc have xa: "x \<in> fst ` set a" and ya: "y \<in> fst ` set a" and ne: "x \<noteq> y"
          by (auto simp: assigned_arcs_iff neighbors_iff)
        from xa obtain wx where wx: "(x, wx) \<in> set a" by auto
        from ya obtain wy where wy: "(y, wy) \<in> set a" by auto
        from bspec[OF C wx] have "\<forall>(y, wy)\<in>set a. x \<noteq> y \<longrightarrow>
           (case overlaps cw (x, y) of None \<Rightarrow> True | Some (i, j) \<Rightarrow> agree_at wx i wy j)"
          by simp
        from bspec[OF this wy] ne o have "agree_at wx i wy j" by simp
        with get[OF wx] get[OF wy] show "the (map_of a x) ! i = the (map_of a y) ! j"
          by (simp add: agree_at_def)
      qed
    qed
    with arcs_agree_defined[OF pre] True dup len spec show ?thesis
      by (simp add: consistent_def)
  qed
qed


text \<open>
  C6. For a partial assignment over slots of the crossword, \<^verbatim>\<open>consistent\<close> raises
  nothing and returns true if and only if the assigned words are pairwise distinct, each has
  the length of its slot, and every two assigned slots that overlap agree on the letters at
  their overlap offsets. Slots without an entry impose nothing.
\<close>

theorem consistent_iff_spec:
  assumes "wf_crossword cw" and "distinct (map fst a)"
    and "fst ` set a \<subseteq> set (variables cw)"
  shows "consistent cw a = Inr (is_consistent cw a)"
  using assms by (rule consistent_eq)

lemma wf_ex_cw: "wf_crossword ex_cw"
  by (simp add: wf_crossword_def ex_defs)

theorem consistent_iff_spec_witness:
  "wf_crossword ex_cw \<and>
   consistent ex_cw [(ex_b, ''tag''), (ex_d, ''cot''), (ex_a, ''cat'')] = Inr True \<and>
   is_consistent ex_cw [(ex_b, ''tag''), (ex_d, ''cot''), (ex_a, ''cat'')] \<and>
   consistent ex_cw [(ex_b, ''tag''), (ex_d, ''cat''), (ex_a, ''cat'')] = Inr False \<and>
   \<not> is_consistent ex_cw [(ex_b, ''tag''), (ex_d, ''cat''), (ex_a, ''cat'')]"
proof -
  let ?good = "[(ex_b, ''tag''), (ex_d, ''cot''), (ex_a, ''cat'')]"
  let ?bad = "[(ex_b, ''tag''), (ex_d, ''cat''), (ex_a, ''cat'')]"
  have d: "distinct (map fst ?good)" "distinct (map fst ?bad)" by (simp_all add: ex_defs)
  have s: "fst ` set ?good \<subseteq> set (variables ex_cw)" "fst ` set ?bad \<subseteq> set (variables ex_cw)"
    by (simp_all add: ex_defs)
  have g: "is_consistent ex_cw ?good"
    by (simp add: is_consistent_def agree_at_def ex_defs)
  have b: "\<not> is_consistent ex_cw ?bad"
    by (simp add: is_consistent_def agree_at_def ex_defs)
  from consistent_iff_spec[OF wf_ex_cw d(1) s(1)] consistent_iff_spec[OF wf_ex_cw d(2) s(2)]
    g b wf_ex_cw
  show ?thesis by simp
qed

section \<open>Least-constraining order\<close>

text \<open>
  The ruled-out count of a word \<open>w\<close> of \<open>var\<close>, as the specification words it: the number
  of pairs of a neighbor of \<open>var\<close> that is not in the assignment and a word of that
  neighbor's domain which differs from \<open>w\<close> at the offsets of their overlap.
\<close>

definition disagree :: "crossword \<Rightarrow> variable \<Rightarrow> variable \<Rightarrow> string \<Rightarrow> string \<Rightarrow> bool" where
  "disagree cw var neighbour w c =
     (case overlaps cw (var, neighbour) of None \<Rightarrow> False
      | Some (vi, ni) \<Rightarrow> vi < length w \<and> ni < length c \<and> w ! vi \<noteq> c ! ni)"

definition ruled_out_count :: "crossword \<Rightarrow> domains \<Rightarrow> assignment \<Rightarrow> variable \<Rightarrow> string \<Rightarrow> nat" where
  "ruled_out_count cw ds a var w =
     length (filter (\<lambda>(neighbour, c). disagree cw var neighbour w c)
       (concat (map (\<lambda>neighbour. map (Pair neighbour) (the (map_of ds neighbour)))
                    (filter (\<lambda>neighbour. neighbour \<notin> fst ` set a) (neighbors cw var)))))"

lemma ruled_out_by_count:
  "ruled_out_by cw var n w nd k = Inr m \<Longrightarrow> m = k + length (filter (disagree cw var n w) nd)"
proof (induction nd arbitrary: k)
  case Nil
  then show ?case by simp
next
  case (Cons c nd)
  from Cons.prems obtain vi ni where o: "overlaps cw (var, n) = Some (vi, ni)"
    by (cases "overlaps cw (var, n)") auto
  from Cons.prems o have vi: "vi < length w" and ni: "ni < length c"
    by (auto simp: char_at_def split: if_splits)
  from Cons.prems o vi ni
  have "ruled_out_by cw var n w nd (if w ! vi \<noteq> c ! ni then k + 1 else k) = Inr m"
    by (simp add: char_at_def)
  from Cons.IH[OF this] o vi ni show ?case by (simp add: disagree_def)
qed

lemma pairs_count:
  "length (filter (\<lambda>(neighbour, c). P neighbour c)
     (concat (map (\<lambda>neighbour. map (Pair neighbour) (f neighbour)) ns)))
   = sum_list (map (\<lambda>neighbour. length (filter (P neighbour) (f neighbour))) ns)"
  by (induction ns) (simp_all add: filter_map comp_def)

lemma ruled_out_sum:
  "ruled_out cw ds var w ns k = Inr m \<Longrightarrow>
   m = k + sum_list (map (\<lambda>n. length (filter (disagree cw var n w) (the (map_of ds n)))) ns)"
proof (induction ns arbitrary: k)
  case Nil
  then show ?case by simp
next
  case (Cons n ns)
  from Cons.prems obtain nd where nd: "getitem ds n = Inr nd"
    by (cases "getitem ds n") auto
  then have m: "the (map_of ds n) = nd" by (auto simp: getitem_def split: option.splits)
  from Cons.prems nd obtain k' where k': "ruled_out_by cw var n w nd k = Inr k'"
    by (cases "ruled_out_by cw var n w nd k") auto
  from Cons.prems nd k' have "ruled_out cw ds var w ns k' = Inr m" by simp
  from Cons.IH[OF this] ruled_out_by_count[OF k'] m show ?case by simp
qed

lemma ruled_out_spec:
  assumes "ruled_out cw ds var w (filter (\<lambda>item. item \<notin> fst ` set a) (neighbors cw var)) 0 = Inr m"
  shows "m = ruled_out_count cw ds a var w"
  using ruled_out_sum[OF assms] by (simp add: ruled_out_count_def pairs_count)

lemma domain_on_choices_spec:
  assumes "domain_on_choices cw ds var a d doc = Inr doc'" and "distinct (map fst doc)"
  shows "distinct (map fst doc') \<and> fst ` set doc' = fst ` set doc \<union> set d \<and>
         (\<forall>w\<in>set d. map_of doc' w = Some (ruled_out_count cw ds a var w))"
  using assms
proof (induction d arbitrary: doc)
  case Nil
  then show ?case by simp
next
  case (Cons w d)
  let ?ns = "filter (\<lambda>item. item \<notin> fst ` set a) (neighbors cw var)"
  from Cons.prems(1) obtain n where n: "ruled_out cw ds var w ?ns 0 = Inr n"
    by (cases "ruled_out cw ds var w ?ns 0") auto
  with Cons.prems(1) have rec: "domain_on_choices cw ds var a d (AList.update w n doc) = Inr doc'"
    by simp
  have dist: "distinct (map fst (AList.update w n doc))"
    using Cons.prems(2) by (rule distinct_update)
  note ih = Cons.IH[OF rec dist]
  have w: "map_of doc' w = Some (ruled_out_count cw ds a var w)"
  proof (cases "w \<in> set d")
    case True
    with ih show ?thesis by blast
  next
    case False
    have keep: "domain_on_choices cw ds var a d' doc0 = Inr doc1 \<Longrightarrow> w \<notin> set d' \<Longrightarrow>
                map_of doc1 w = map_of doc0 w" for d' doc0 doc1
    proof (induction d' arbitrary: doc0)
      case Nil
      then show ?case by simp
    next
      case (Cons u d')
      from Cons.prems(1) obtain k where
        "domain_on_choices cw ds var a d' (AList.update u k doc0) = Inr doc1"
        by (cases "ruled_out cw ds var u ?ns 0") auto
      from Cons.IH[OF this] Cons.prems(2) show ?case by (simp add: update_conv')
    qed
    from keep[OF rec False] ruled_out_spec[OF n] show ?thesis by (simp add: update_conv')
  qed
  from ih w show ?case by (auto simp: dom_update)
qed

text \<open>A domain store after node consistency: every word has the length of its slot.\<close>

definition node_consistent :: "domains \<Rightarrow> bool" where
  "node_consistent ds = (\<forall>(v, d)\<in>set ds. \<forall>w\<in>set d. length w = var_length v)"

lemma ruled_out_by_total:
  assumes "overlaps cw (var, n) = Some (vi, ni)" "vi < length w" "\<forall>c\<in>set nd. ni < length c"
  shows "\<exists>m. ruled_out_by cw var n w nd k = Inr m"
  using assms by (induction nd arbitrary: k) (simp_all add: char_at_def)

lemma ruled_out_total:
  assumes "\<forall>n\<in>set ns. \<exists>nd vi ni. getitem ds n = Inr nd \<and> overlaps cw (var, n) = Some (vi, ni) \<and>
             vi < length w \<and> (\<forall>c\<in>set nd. ni < length c)"
  shows "\<exists>m. ruled_out cw ds var w ns k = Inr m"
  using assms
proof (induction ns arbitrary: k)
  case Nil
  show ?case by simp
next
  case (Cons n ns)
  from Cons.prems obtain nd vi ni where nd: "getitem ds n = Inr nd"
    and o: "overlaps cw (var, n) = Some (vi, ni)" and vi: "vi < length w"
    and ni: "\<forall>c\<in>set nd. ni < length c"
    by auto
  from ruled_out_by_total[OF o vi ni] obtain k' where k': "ruled_out_by cw var n w nd k = Inr k'"
    by blast
  from Cons.prems have "\<exists>m. ruled_out cw ds var w ns k' = Inr m" by (intro Cons.IH) simp
  with nd k' show ?case by simp
qed

lemma domain_on_choices_total:
  assumes "\<forall>w\<in>set d. \<exists>m. ruled_out cw ds var w
             (filter (\<lambda>item. item \<notin> fst ` set a) (neighbors cw var)) 0 = Inr m"
  shows "\<exists>doc'. domain_on_choices cw ds var a d doc = Inr doc'"
  using assms
proof (induction d arbitrary: doc)
  case Nil
  show ?case by simp
next
  case (Cons w d)
  from Cons.prems obtain m where m: "ruled_out cw ds var w
             (filter (\<lambda>item. item \<notin> fst ` set a) (neighbors cw var)) 0 = Inr m"
    by auto
  from Cons.prems have "\<exists>doc'. domain_on_choices cw ds var a d (AList.update w m doc) = Inr doc'"
    by (intro Cons.IH) simp
  with m show ?case by simp
qed

lemma getitem_Inr_iff: "getitem d k = Inr v \<longleftrightarrow> map_of d k = Some v"
  by (simp add: getitem_def split: option.splits)

lemma getitem_key: "k \<in> fst ` set d \<Longrightarrow> \<exists>v. getitem d k = Inr v \<and> (k, v) \<in> set d"
  by (metis getitem_Inr_iff map_of_SomeD map_of_eq_None_iff not_Some_eq)

lemma node_consistentD:
  "node_consistent ds \<Longrightarrow> (v, d) \<in> set ds \<Longrightarrow> w \<in> set d \<Longrightarrow> length w = var_length v"
  unfolding node_consistent_def by blast

lemma order_domain_values_total:
  assumes wf: "wf_crossword cw" and nc: "node_consistent ds"
    and keys: "set (variables cw) \<subseteq> fst ` set ds" and var: "var \<in> set (variables cw)"
  shows "\<exists>res. order_domain_values cw ds var a = Inr res"
proof -
  let ?ns = "filter (\<lambda>item. item \<notin> fst ` set a) (neighbors cw var)"
  from var keys have "var \<in> fst ` set ds" by (rule subsetD[rotated])
  from getitem_key[OF this] obtain d where d: "getitem ds var = Inr d" and din: "(var, d) \<in> set ds"
    by (elim exE conjE)
  have "\<exists>m. ruled_out cw ds var w ?ns 0 = Inr m" if w: "w \<in> set d" for w
  proof (rule ruled_out_total, rule ballI)
    fix n assume "n \<in> set ?ns"
    then have nv: "n \<in> set (variables cw)" and o: "overlaps cw (n, var) \<noteq> None"
      by (auto simp: neighbors_iff)
    from o obtain ni vi where o': "overlaps cw (n, var) = Some (ni, vi)" by auto
    note sw = wf_overlap_swap[OF wf nv var o']
    from nv keys have "n \<in> fst ` set ds" by (rule subsetD[rotated])
    from getitem_key[OF this] obtain nd where nd: "getitem ds n = Inr nd" and ndin: "(n, nd) \<in> set ds"
      by (elim exE conjE)
    from node_consistentD[OF nc din w] sw(3) have "vi < length w" by simp
    moreover from node_consistentD[OF nc ndin] sw(2) have "\<forall>c\<in>set nd. ni < length c" by simp
    ultimately have "getitem ds n = Inr nd \<and> overlaps cw (var, n) = Some (vi, ni) \<and>
             vi < length w \<and> (\<forall>c\<in>set nd. ni < length c)"
      using nd sw(1) by simp
    then show "\<exists>nd vi ni. getitem ds n = Inr nd \<and> overlaps cw (var, n) = Some (vi, ni) \<and>
             vi < length w \<and> (\<forall>c\<in>set nd. ni < length c)"
      by (intro exI)
  qed
  then have "\<forall>w\<in>set d. \<exists>m. ruled_out cw ds var w ?ns 0 = Inr m" ..
  then have "\<exists>doc'. domain_on_choices cw ds var a d [] = Inr doc'"
    by (rule domain_on_choices_total)
  then obtain doc' where "domain_on_choices cw ds var a d [] = Inr doc'" ..
  with d show ?thesis by (simp add: order_domain_values_def)
qed

lemma order_domain_values_Inr:
  assumes "order_domain_values cw ds var a = Inr res"
  shows "set res = set (the (map_of ds var)) \<and> distinct res \<and>
         sorted (map (ruled_out_count cw ds a var) res)"
proof -
  from assms obtain d where d: "getitem ds var = Inr d"
    by (cases "getitem ds var") (auto simp: order_domain_values_def)
  then have m: "the (map_of ds var) = d" by (auto simp: getitem_def split: option.splits)
  from assms d obtain doc where doc: "domain_on_choices cw ds var a d [] = Inr doc"
    by (cases "domain_on_choices cw ds var a d []") (auto simp: order_domain_values_def)
  from assms d doc have res: "res = sort_key (\<lambda>k. the (map_of doc k)) (map fst doc)"
    by (simp add: order_domain_values_def)
  from domain_on_choices_spec[OF doc] have dist: "distinct (map fst doc)"
    and keys: "fst ` set doc = set d"
    and cnt: "\<forall>w\<in>set d. map_of doc w = Some (ruled_out_count cw ds a var w)"
    by auto
  from keys have s: "set res = set d" by (simp add: res)
  from dist have di: "distinct res" by (simp add: res)
  have "sorted (map (\<lambda>k. the (map_of doc k)) res)" unfolding res by (rule sorted_sort_key)
  moreover have "map (\<lambda>k. the (map_of doc k)) res = map (ruled_out_count cw ds a var) res"
    using cnt s by (intro map_cong) auto
  ultimately have "sorted (map (ruled_out_count cw ds a var) res)" by simp
  with s di m show ?thesis by simp
qed

text \<open>
  C8. Whenever \<^verbatim>\<open>order_domain_values(var, assignment)\<close> returns, the list holds exactly
  the words of \<open>var\<close>'s domain, each once, in ascending order of their ruled-out count. It
  does return, raising nothing, for every slot of a well-formed crossword over a
  node-consistent domain store that has a domain for every slot.
\<close>

theorem order_domain_values_sorted:
  "(order_domain_values cw ds var a = Inr res \<longrightarrow>
      set res = set (the (map_of ds var)) \<and> distinct res \<and>
      sorted (map (ruled_out_count cw ds a var) res)) \<and>
   (wf_crossword cw \<and> node_consistent ds \<and> set (variables cw) \<subseteq> fst ` set ds \<and>
    var \<in> set (variables cw) \<longrightarrow> (\<exists>r. order_domain_values cw ds var a = Inr r))"
proof (rule conjI; rule impI)
  assume "order_domain_values cw ds var a = Inr res"
  then show "set res = set (the (map_of ds var)) \<and> distinct res \<and>
      sorted (map (ruled_out_count cw ds a var) res)"
    by (rule order_domain_values_Inr)
next
  assume "wf_crossword cw \<and> node_consistent ds \<and> set (variables cw) \<subseteq> fst ` set ds \<and>
    var \<in> set (variables cw)"
  then show "\<exists>r. order_domain_values cw ds var a = Inr r"
    by (intro order_domain_values_total) simp_all
qed

definition ex_lcv :: domains where
  "ex_lcv = [(ex_a, [''dog'', ''cat'']), (ex_d, [''dog'', ''cat'']), (ex_b, [''tag''])]"

theorem order_domain_values_sorted_witness:
  "wf_crossword ex_cw \<and> node_consistent ex_lcv \<and> set (variables ex_cw) \<subseteq> fst ` set ex_lcv \<and>
   ex_d \<in> set (variables ex_cw) \<and>
   order_domain_values ex_cw ex_lcv ex_d [] = Inr [''cat'', ''dog''] \<and>
   map (ruled_out_count ex_cw ex_lcv [] ex_d) [''cat'', ''dog''] = [1, 2] \<and>
   sorted (map (ruled_out_count ex_cw ex_lcv [] ex_d) [''cat'', ''dog''])"
proof -
  have h: "node_consistent ex_lcv" "set (variables ex_cw) \<subseteq> fst ` set ex_lcv"
    "ex_d \<in> set (variables ex_cw)"
    by (simp_all add: node_consistent_def ex_lcv_def ex_defs)
  have o: "order_domain_values ex_cw ex_lcv ex_d [] = Inr [''cat'', ''dog'']"
    by (simp add: order_domain_values_def ex_lcv_def ex_defs getitem_def neighbors_def char_at_def)
  have c: "map (ruled_out_count ex_cw ex_lcv [] ex_d) [''cat'', ''dog''] = [1, 2]"
    by (simp add: ruled_out_count_def disagree_def ex_lcv_def ex_defs neighbors_def)
  from order_domain_values_sorted[of ex_cw ex_lcv ex_d "[]" "[''cat'', ''dog'']"] h o c wf_ex_cw
  show ?thesis by simp
qed

section \<open>What solve returns\<close>

text \<open>
  What the search keeps while it extends an assignment: the assignment is a dict (no key
  twice) over slots of the domain store.
\<close>

definition search_state :: "domains \<Rightarrow> assignment \<Rightarrow> bool" where
  "search_state ds a = (distinct (map fst a) \<and> fst ` set a \<subseteq> fst ` set ds)"

lemma search_state_update:
  "search_state ds a \<Longrightarrow> var \<in> fst ` set ds \<Longrightarrow> search_state ds (AList.update var val a)"
  by (auto simp: search_state_def distinct_update dom_update)

lemma backtrack_result:
  shows "search_state ds a \<Longrightarrow> consistent cw a = Inr True \<Longrightarrow>
         snd (backtrack cw ds a) = Inr (Some r) \<Longrightarrow>
         search_state ds r \<and> consistent cw r = Inr True \<and> assignment_complete ds r"
    and "search_state ds a \<Longrightarrow> var \<in> fst ` set ds \<Longrightarrow>
         snd (try_values cw ds var a vals) = Inr (Some r) \<Longrightarrow>
         search_state ds r \<and> consistent cw r = Inr True \<and> assignment_complete ds r"
proof (induction cw ds a and cw ds var a vals rule: backtrack_try_values.induct)
  case (1 cw ds a)
  show ?case
  proof (cases "assignment_complete ds a")
    case True
    with "1.prems" show ?thesis by (simp add: backtrack.simps)
  next
    case False
    from False "1.prems"(3) obtain var where var: "select_unassigned_variable cw ds a = Inr var"
      by (cases "select_unassigned_variable cw ds a") (auto simp: backtrack.simps)
    from False "1.prems"(3) var obtain d where d: "getitem ds var = Inr d"
      by (cases "getitem ds var") (auto simp: backtrack.simps)
    from False "1.prems"(3) var d have "snd (try_values cw ds var a d) = Inr (Some r)"
      by (simp add: backtrack.simps split: prod.splits)
    with "1.IH"[OF False var d "1.prems"(1) select_unassigned_variable_Inr(1)[OF var]]
    show ?thesis by simp
  qed
next
  case (2 cw ds var a)
  then show ?case by simp
next
  case (3 cw ds var a val rest)
  let ?copy = "AList.update var val a"
  from "3.prems"(1,2) have st: "search_state ds ?copy" by (rule search_state_update)
  from "3.prems"(3) obtain ok where ok: "consistent cw ?copy = Inr ok"
    by (cases "consistent cw ?copy") (auto simp: Let_def)
  show ?case
  proof (cases ok)
    case False
    with "3.prems"(3) ok have "snd (try_values cw ds var a rest) = Inr (Some r)"
      by (simp add: Let_def split: prod.splits)
    with "3.IH"(3)[OF refl ok False "3.prems"(1,2)] show ?thesis by simp
  next
    case True
    obtain t result where bt: "backtrack cw ds ?copy = (t, result)" by (cases "backtrack cw ds ?copy")
    show ?thesis
    proof (cases "result = Inr None")
      case False
      with "3.prems"(3) ok True bt have "snd (backtrack cw ds ?copy) = Inr (Some r)"
        by (simp add: Let_def)
      with "3.IH"(1)[OF refl ok True st] ok True show ?thesis by simp
    next
      case none: True
      with "3.prems"(3) ok True bt have "snd (try_values cw ds var ?copy rest) = Inr (Some r)"
        by (simp add: Let_def split: prod.splits)
      with "3.IH"(2)[OF refl ok True bt[symmetric] _ st "3.prems"(2)] none show ?thesis by simp
    qed
  qed
qed


lemma not_complete_unassigned:
  "\<not> assignment_complete ds a \<Longrightarrow> \<exists>u\<in>fst ` set ds. u \<notin> fst ` set a"
  by (auto simp: assignment_complete_def list_all_iff)

lemma backtrack_returns:
  shows "wf_crossword cw \<Longrightarrow> fst ` set ds \<subseteq> set (variables cw) \<Longrightarrow> search_state ds a \<Longrightarrow>
         \<exists>res. snd (backtrack cw ds a) = Inr res"
    and "wf_crossword cw \<Longrightarrow> fst ` set ds \<subseteq> set (variables cw) \<Longrightarrow> search_state ds a \<Longrightarrow>
         var \<in> fst ` set ds \<Longrightarrow> \<exists>res. snd (try_values cw ds var a vals) = Inr res"
proof (induction cw ds a and cw ds var a vals rule: backtrack_try_values.induct)
  case (1 cw ds a)
  show ?case
  proof (cases "assignment_complete ds a")
    case True
    then show ?thesis by (simp add: backtrack.simps)
  next
    case False
    from select_unassigned_variable_total[OF not_complete_unassigned[OF False]]
    obtain var where var: "select_unassigned_variable cw ds a = Inr var" ..
    note vin = select_unassigned_variable_Inr(1)[OF var]
    from getitem_key[OF vin] obtain d where d: "getitem ds var = Inr d" by blast
    from "1.IH"[OF False var d "1.prems" vin] obtain res where
      "snd (try_values cw ds var a d) = Inr res" ..
    with False var d show ?thesis by (auto simp add: backtrack.simps split: prod.splits)
  qed
next
  case (2 cw ds var a)
  show ?case by simp
next
  case (3 cw ds var a val rest)
  let ?copy = "AList.update var val a"
  from "3.prems"(3,4) have st: "search_state ds ?copy" by (rule search_state_update)
  then have "distinct (map fst ?copy)" and "fst ` set ?copy \<subseteq> set (variables cw)"
    using "3.prems"(2) unfolding search_state_def by blast+
  with "3.prems"(1) have ok: "consistent cw ?copy = Inr (is_consistent cw ?copy)"
    by (intro consistent_eq)
  show ?case
  proof (cases "is_consistent cw ?copy")
    case False
    from "3.IH"(3)[OF refl ok False "3.prems"] obtain res where
      "snd (try_values cw ds var a rest) = Inr res" ..
    with ok False show ?thesis by (auto simp add: Let_def split: prod.splits)
  next
    case True
    obtain t result where bt: "backtrack cw ds ?copy = (t, result)" by (cases "backtrack cw ds ?copy")
    show ?thesis
    proof (cases "result = Inr None")
      case False
      from "3.IH"(1)[OF refl ok True "3.prems"(1,2) st] bt obtain res where "result = Inr res"
        by auto
      with ok True bt False show ?thesis by (simp add: Let_def)
    next
      case none: True
      from "3.IH"(2)[OF refl ok True bt[symmetric] _ "3.prems"(1,2) st "3.prems"(4)] none
      obtain res where "snd (try_values cw ds var ?copy rest) = Inr res" by auto
      with ok True bt none show ?thesis by (auto simp add: Let_def split: prod.splits)
    qed
  qed
qed

text \<open>
  Nothing raises on a well-formed crossword: after node consistency every subscript of
  \<^verbatim>\<open>revise\<close> is inside its word, and the worklist only ever holds arcs between
  neighbors.
\<close>

lemma any_match_returns:
  "xi < length w \<Longrightarrow> \<forall>c\<in>set yd. yi < length c \<Longrightarrow> \<exists>b. any_match w xi yi yd = Inr b"
  by (induction yd) (auto simp add: char_at_def)

lemma revise_loop_returns:
  assumes "getitem ds y = Inr yd" "\<forall>c\<in>set yd. yi < length c" "\<forall>w\<in>set xd. xi < length w"
  shows "\<exists>r. revise_loop ds y xi yi xd = Inr r"
  using assms(3)
proof (induction xd)
  case Nil
  show ?case by simp
next
  case (Cons w xd)
  from Cons.prems have "xi < length w" by simp
  from any_match_returns[OF this assms(2)] obtain b where b: "any_match w xi yi yd = Inr b" ..
  from Cons.prems have "\<exists>r. revise_loop ds y xi yi xd = Inr r" by (intro Cons.IH) simp
  with b assms(1) show ?case by auto
qed

definition good_arc :: "crossword \<Rightarrow> variable \<times> variable \<Rightarrow> bool" where
  "good_arc cw arc = (fst arc \<in> set (variables cw) \<and> snd arc \<in> set (neighbors cw (fst arc)))"

lemma revise_returns:
  assumes wf: "wf_crossword cw" and keys: "fst ` set ds = set (variables cw)"
    and nc: "node_consistent ds" and arc: "good_arc cw (x, y)"
  shows "\<exists>b ds'. revise cw ds x y = Inr (b, ds')"
proof -
  from arc have xv: "x \<in> set (variables cw)" and yv: "y \<in> set (variables cw)"
    and o: "overlaps cw (y, x) \<noteq> None"
    by (auto simp: good_arc_def neighbors_iff)
  from o obtain yi xi where o': "overlaps cw (y, x) = Some (yi, xi)" by auto
  note sw = wf_overlap_swap[OF wf yv xv o']
  from xv keys have "x \<in> fst ` set ds" by simp
  from getitem_key[OF this] obtain xd where xd: "getitem ds x = Inr xd" and xin: "(x, xd) \<in> set ds"
    by (elim exE conjE)
  from yv keys have "y \<in> fst ` set ds" by simp
  from getitem_key[OF this] obtain yd where yd: "getitem ds y = Inr yd" and yin: "(y, yd) \<in> set ds"
    by (elim exE conjE)
  from node_consistentD[OF nc yin] sw(2) have 1: "\<forall>c\<in>set yd. yi < length c" by simp
  from node_consistentD[OF nc xin] sw(3) have 2: "\<forall>w\<in>set xd. xi < length w" by simp
  from revise_loop_returns[OF yd 1 2] obtain r where "revise_loop ds y xi yi xd = Inr r" ..
  with sw(1) xd show ?thesis by (auto simp add: revise_def Let_def)
qed

lemma set_update_subset: "set (AList.update k v al) \<subseteq> insert (k, v) (set al)"
  by (induction al) auto

lemma revise_node_consistent:
  assumes "revise cw ds x y = Inr (b, ds')" and nc: "node_consistent ds"
  shows "node_consistent ds'"
proof -
  from assms(1) obtain xi yi xd r where
    g: "getitem ds x = Inr xd" and l: "revise_loop ds y xi yi xd = Inr r"
    and d: "ds' = (if b then AList.update x r ds else ds)"
    by (elim revise_InrE)
  from l have r: "set r \<subseteq> set xd" by (auto dest: revise_loop_filter)
  from g have "(x, xd) \<in> set ds" by (simp add: getitem_Inr_iff map_of_SomeD)
  from node_consistentD[OF nc this] r have "\<forall>w\<in>set r. length w = var_length x" by blast
  with nc have "node_consistent (AList.update x r ds)"
    using set_update_subset[of x r ds] unfolding node_consistent_def by blast
  with nc d show ?thesis by simp
qed

lemma ac3_loop_returns:
  "wf_crossword cw \<Longrightarrow> fst ` set ds = set (variables cw) \<Longrightarrow> node_consistent ds \<Longrightarrow>
   \<forall>arc\<in>set arcs. good_arc cw arc \<Longrightarrow> \<exists>b. fst (ac3_loop cw ds arcs) = Inr b"
proof (induction cw ds arcs rule: ac3_loop.induct)
  case (1 cw ds)
  show ?case by auto
next
  case (2 cw ds x y arcs)
  from "2.prems"(4) have arc: "good_arc cw (x, y)" and rest: "\<forall>arc\<in>set arcs. good_arc cw arc"
    by simp_all
  from revise_returns[OF "2.prems"(1-3) arc] obtain b ds' where r: "revise cw ds x y = Inr (b, ds')"
    by blast
  note nc' = revise_node_consistent[OF r "2.prems"(3)]
  from revise_subset(2)[OF r] "2.prems"(2) have keys': "fst ` set ds' = set (variables cw)"
    by (metis list.set_map)
  show ?case
  proof (cases b)
    case False
    from "2.IH"(2)[OF r refl False "2.prems"(1) keys' nc' rest] r False show ?thesis by auto
  next
    case True
    from arc keys' have "x \<in> fst ` set ds'" by (simp add: good_arc_def)
    from getitem_key[OF this] obtain xd where xd: "getitem ds' x = Inr xd" by blast
    show ?thesis
    proof (cases "length xd = 0")
      case empty: True
      with r True xd show ?thesis by auto
    next
      case False
      have "good_arc cw (n, x)" if "n \<in> set (neighbors cw x)" for n
      proof -
        from that have nv: "n \<in> set (variables cw)" and ne: "n \<noteq> x"
          and o: "overlaps cw (n, x) \<noteq> None"
          by (auto simp: neighbors_iff)
        from o obtain i j where o': "overlaps cw (n, x) = Some (i, j)" by auto
        from arc have xv: "x \<in> set (variables cw)" by (simp add: good_arc_def)
        from wf_overlap_swap(1)[OF "2.prems"(1) nv xv o'] xv nv ne show ?thesis
          by (simp add: good_arc_def neighbors_iff)
      qed
      with rest have "\<forall>arc\<in>set (arcs @ map (\<lambda>neighbour. (neighbour, x))
                 (filter (\<lambda>item. item \<noteq> y) (neighbors cw x))). good_arc cw arc"
        by auto
      from "2.IH"(1)[OF r refl True xd False "2.prems"(1) keys' nc' this] r True xd False
      show ?thesis by auto
    qed
  qed
qed


lemma enforce_node_consistent: "node_consistent (enforce_node_consistency ds)"
  by (auto simp: node_consistent_def enforce_node_consistency_def)

lemma enforce_keys: "map fst (enforce_node_consistency ds) = map fst ds"
  by (induction ds) (auto simp: enforce_node_consistency_def)

lemma initial_arcs_good:
  "fst ` set ds \<subseteq> set (variables cw) \<Longrightarrow> \<forall>arc\<in>set (initial_arcs cw ds). good_arc cw arc"
  by (auto simp: initial_arcs_def good_arc_def)

lemma consistent_empty: "consistent cw [] = Inr True"
  by (simp add: consistent_def assigned_arcs_def)

lemma keys_eq: "map fst ds' = map fst ds \<Longrightarrow> fst ` set ds' = fst ` set ds"
  by (metis list.set_map)

text \<open>
  C1. For a well-formed crossword and a domain store with one domain per slot,
  \<^verbatim>\<open>solve\<close> raises nothing: it returns \<^verbatim>\<open>None\<close> or an assignment. A returned
  assignment is complete (every slot of the domain store has a word) and consistent (the
  words are pairwise distinct, each has its slot's length, and overlapping slots agree at
  their offsets). No partial assignment is returned.
\<close>

theorem solve_complete_consistent:
  assumes wf: "wf_crossword cw" and keys: "fst ` set ds = set (variables cw)"
  shows "(\<exists>res. snd (solve cw ds) = Inr res) \<and>
         (\<forall>r. snd (solve cw ds) = Inr (Some r) \<longrightarrow>
            (\<forall>v\<in>fst ` set ds. v \<in> fst ` set r) \<and> distinct (map fst r) \<and>
            fst ` set r \<subseteq> fst ` set ds \<and> is_consistent cw r)"
proof -
  let ?ds1 = "enforce_node_consistency ds"
  have k1: "fst ` set ?ds1 = set (variables cw)"
    using keys keys_eq[OF enforce_keys] by simp
  then have "\<forall>arc\<in>set (initial_arcs cw ?ds1). good_arc cw arc"
    by (intro initial_arcs_good) simp
  from ac3_loop_returns[OF wf k1 enforce_node_consistent this]
  obtain b where "fst (ac3 cw ?ds1 None) = Inr b" by (auto simp: ac3_def)
  then obtain ds2 where ac: "ac3 cw ?ds1 None = (Inr b, ds2)" by (cases "ac3 cw ?ds1 None") auto
  then have "snd (ac3_loop cw ?ds1 (initial_arcs cw ?ds1)) = ds2" by (simp add: ac3_def)
  with ac3_loop_subset[of cw ?ds1 "initial_arcs cw ?ds1"] have "map fst ds2 = map fst ?ds1"
    by simp
  from keys_eq[OF this] k1 keys have k2: "fst ` set ds2 = fst ` set ds"
    and k2': "fst ` set ds2 \<subseteq> set (variables cw)" by simp_all
  from ac have sol: "solve cw ds = backtrack cw ds2 []" by (simp add: solve_def)
  have st: "search_state ds2 []" by (simp add: search_state_def)
  from backtrack_returns(1)[OF wf k2' st] sol have 1: "\<exists>res. snd (solve cw ds) = Inr res" by simp
  have 2: "(\<forall>v\<in>fst ` set ds. v \<in> fst ` set r) \<and> distinct (map fst r) \<and>
            fst ` set r \<subseteq> fst ` set ds \<and> is_consistent cw r"
    if "snd (solve cw ds) = Inr (Some r)" for r
  proof -
    from that sol have "snd (backtrack cw ds2 []) = Inr (Some r)" by simp
    from backtrack_result(1)[OF st consistent_empty this]
    have s: "search_state ds2 r" and c: "consistent cw r = Inr True" and a: "assignment_complete ds2 r"
      by simp_all
    from s k2 k2' have d: "distinct (map fst r)" and sub: "fst ` set r \<subseteq> fst ` set ds"
      and sub': "fst ` set r \<subseteq> set (variables cw)"
      unfolding search_state_def by blast+
    from consistent_eq[OF wf d sub'] c have "is_consistent cw r" by simp
    moreover from a k2 have "\<forall>v\<in>fst ` set ds. v \<in> fst ` set r"
      by (simp add: assignment_complete_def list_all_iff)
    ultimately show ?thesis using d sub by blast
  qed
  from 1 2 show ?thesis by blast
qed

lemma solve_ex_cw:
  "solve ex_cw (init_domains ex_cw) =
     ([Enter, Try ex_b ''tag'', Enter, Try ex_d ''cat'', Enter, Try ex_a ''cat'', Try ex_a ''cot'',
       Enter], Inr (Some [(ex_b, ''tag''), (ex_d, ''cat''), (ex_a, ''cot'')]))"
  by (simp add: ex_defs solve_def ac3_def init_domains_def enforce_node_consistency_def
    initial_arcs_def neighbors_def revise_def getitem_def char_at_def Let_def backtrack.simps
    select_unassigned_variable_def first_key_def assignment_complete_def consistent_def
    assigned_arcs_def set_eq_subset)


theorem solve_complete_consistent_witness:
  "wf_crossword ex_cw \<and> fst ` set (init_domains ex_cw) = set (variables ex_cw) \<and>
   snd (solve ex_cw (init_domains ex_cw))
     = Inr (Some [(ex_b, ''tag''), (ex_d, ''cat''), (ex_a, ''cot'')]) \<and>
   fst ` set (init_domains ex_cw)
     \<subseteq> fst ` set [(ex_b, ''tag''), (ex_d, ''cat''), (ex_a, ''cot'')] \<and>
   is_consistent ex_cw [(ex_b, ''tag''), (ex_d, ''cat''), (ex_a, ''cot'')]"
proof -
  have k: "fst ` set (init_domains ex_cw) = set (variables ex_cw)"
    by (simp add: init_domains_def ex_defs)
  from solve_complete_consistent[OF wf_ex_cw k] solve_ex_cw wf_ex_cw k show ?thesis
    by auto
qed

section \<open>Soundness of AC-3\<close>

text \<open>
  A slot \<open>x\<close> has support in \<open>y\<close> when every word left for \<open>x\<close> agrees, at the offsets
  of the overlap, with some word left for \<open>y\<close>. The loop keeps this true of every arc between
  neighbors that is not on the worklist.
\<close>

definition has_support :: "crossword \<Rightarrow> domains \<Rightarrow> variable \<Rightarrow> variable \<Rightarrow> bool" where
  "has_support cw ds x y =
     (\<forall>w\<in>dom_of ds x. \<exists>c\<in>dom_of ds y. \<exists>i j. overlaps cw (x, y) = Some (i, j) \<and> agree_at w i c j)"

definition arc_consistent :: "crossword \<Rightarrow> domains \<Rightarrow> bool" where
  "arc_consistent cw ds =
     (\<forall>x\<in>fst ` set ds. \<forall>y\<in>set (neighbors cw x). has_support cw ds x y)"

definition pending :: "crossword \<Rightarrow> domains \<Rightarrow> (variable \<times> variable) list \<Rightarrow> bool" where
  "pending cw ds arcs =
     (\<forall>x\<in>fst ` set ds. \<forall>y\<in>set (neighbors cw x). (x, y) \<in> set arcs \<or> has_support cw ds x y)"

lemma any_match_iff:
  "any_match w xi yi yd = Inr b \<Longrightarrow> b = (\<exists>c\<in>set yd. agree_at w xi c yi)"
  by (induction yd) (auto simp: char_at_def agree_at_def split: if_splits)

lemma revise_loop_member:
  assumes "revise_loop ds y xi yi xd = Inr r" "w \<in> set xd"
  shows "\<exists>yd. getitem ds y = Inr yd \<and> (w \<in> set r \<longleftrightarrow> (\<exists>c\<in>set yd. agree_at w xi c yi))"
proof -
  from assms have "\<exists>yd b. getitem ds y = Inr yd \<and> any_match w xi yi yd = Inr b"
    by (induction xd arbitrary: r) (auto split: sum.splits)
  then obtain yd b where yd: "getitem ds y = Inr yd" and b: "any_match w xi yi yd = Inr b" by blast
  from revise_loop_filter[OF assms(1)] assms(2) yd b
  have "w \<in> set r \<longleftrightarrow> b" by (auto simp: supported_def)
  with any_match_iff[OF b] yd show ?thesis by blast
qed

lemma dom_of_getitem: "getitem ds v = Inr d \<Longrightarrow> dom_of ds v = set d"
  by (simp add: dom_of_def getitem_Inr_iff)

lemma revise_facts:
  assumes "revise cw ds x y = Inr (b, ds')"
  obtains xi yi where "overlaps cw (x, y) = Some (xi, yi)"
    and "dom_of ds' x \<subseteq> dom_of ds x"
    and "\<And>v. v \<noteq> x \<Longrightarrow> dom_of ds' v = dom_of ds v"
    and "\<not> b \<Longrightarrow> ds' = ds"
    and "\<And>w. w \<in> dom_of ds x \<Longrightarrow>
           (w \<in> dom_of ds' x \<longleftrightarrow> (\<exists>c\<in>dom_of ds y. agree_at w xi c yi))"
proof -
  from assms obtain xi yi xd r where o: "overlaps cw (x, y) = Some (xi, yi)"
    and g: "getitem ds x = Inr xd" and l: "revise_loop ds y xi yi xd = Inr r"
    and b: "b = (set r \<noteq> set xd)" and d: "ds' = (if b then AList.update x r ds else ds)"
    by (elim revise_InrE)
  note dx = dom_of_getitem[OF g]
  have dx': "dom_of ds' x = set r" using b d dx by (auto simp: dom_of_update)
  have other: "dom_of ds' v = dom_of ds v" if "v \<noteq> x" for v
    using d that by (simp add: dom_of_update)
  have mem: "w \<in> dom_of ds' x \<longleftrightarrow> (\<exists>c\<in>dom_of ds y. agree_at w xi c yi)" if "w \<in> dom_of ds x" for w
  proof -
    from that dx have "w \<in> set xd" by simp
    from revise_loop_member[OF l this] obtain yd where "getitem ds y = Inr yd"
      and "w \<in> set r \<longleftrightarrow> (\<exists>c\<in>set yd. agree_at w xi c yi)" by blast
    with dx' dom_of_getitem[of ds y yd] show ?thesis by simp
  qed
  from revise_subset(1)[OF assms] have "dom_of ds' x \<subseteq> dom_of ds x" .
  moreover from d have "\<not> b \<Longrightarrow> ds' = ds" by simp
  ultimately show ?thesis using o other mem that by blast
qed


lemma agree_at_swap: "agree_at w i c j \<Longrightarrow> agree_at c j w i"
  by (simp add: agree_at_def)

lemma neighbors_sym:
  assumes wf: "wf_crossword cw" and a: "a \<in> set (variables cw)" and x: "x \<in> set (neighbors cw a)"
  shows "a \<in> set (neighbors cw x)"
proof -
  from x have xv: "x \<in> set (variables cw)" and ne: "x \<noteq> a" and o: "overlaps cw (x, a) \<noteq> None"
    by (simp_all add: neighbors_iff)
  from o obtain i j where "overlaps cw (x, a) = Some (i, j)" by auto
  from wf_overlap_swap(1)[OF wf xv a this] a ne show ?thesis by (simp add: neighbors_iff)
qed

lemma pending_step:
  assumes wf: "wf_crossword cw" and keys: "fst ` set ds \<subseteq> set (variables cw)"
    and inv: "pending cw ds ((x, y) # arcs)" and rev: "revise cw ds x y = Inr (b, ds')"
  shows "pending cw ds' (if b then arcs @ map (\<lambda>neighbour. (neighbour, x))
                                     (filter (\<lambda>item. item \<noteq> y) (neighbors cw x))
                         else arcs)"
    (is "pending cw ds' ?arcs'")
proof -
  from rev obtain xi yi where o: "overlaps cw (x, y) = Some (xi, yi)"
    and sub: "dom_of ds' x \<subseteq> dom_of ds x"
    and other: "\<And>v. v \<noteq> x \<Longrightarrow> dom_of ds' v = dom_of ds v"
    and same: "\<not> b \<Longrightarrow> ds' = ds"
    and mem: "\<And>w. w \<in> dom_of ds x \<Longrightarrow>
           (w \<in> dom_of ds' x \<longleftrightarrow> (\<exists>c\<in>dom_of ds y. agree_at w xi c yi))"
    by (rule revise_facts) blast
  have k: "fst ` set ds' = fst ` set ds" using revise_subset(2)[OF rev] by (rule keys_eq)
  have "(a, c) \<in> set ?arcs' \<or> has_support cw ds' a c"
    if a: "a \<in> fst ` set ds'" and c: "c \<in> set (neighbors cw a)" for a c
  proof -
    from a k keys have av: "a \<in> set (variables cw)" by blast
    from c have ca: "c \<noteq> a" and cv: "c \<in> set (variables cw)" by (simp_all add: neighbors_iff)
    from inv a k c consider (arc) "(a, c) = (x, y)" | (queued) "(a, c) \<in> set arcs"
      | (settled) "has_support cw ds a c" "(a, c) \<noteq> (x, y)"
      unfolding pending_def by auto
    then show ?thesis
    proof cases
      case arc
      with ca have yx: "y \<noteq> x" by simp
      have "has_support cw ds' x y" unfolding has_support_def
      proof
        fix w assume w: "w \<in> dom_of ds' x"
        with sub have "w \<in> dom_of ds x" by blast
        from mem[OF this] w obtain c' where "c' \<in> dom_of ds y" "agree_at w xi c' yi" by blast
        with other[OF yx] o
        show "\<exists>c\<in>dom_of ds' y. \<exists>i j. overlaps cw (x, y) = Some (i, j) \<and> agree_at w i c j"
          by auto
      qed
      with arc show ?thesis by simp
    next
      case queued
      then show ?thesis by simp
    next
      case settled
      show ?thesis
      proof (cases b)
        case False
        with same settled(1) show ?thesis by simp
      next
        case True
        show ?thesis
        proof (cases "a = x")
          case ax: True
          with ca have "c \<noteq> x" by simp
          from other[OF this] sub settled(1) ax have "has_support cw ds' a c"
            unfolding has_support_def by blast
          then show ?thesis ..
        next
          case ax: False
          show ?thesis
          proof (cases "c = x")
            case cx: False
            from other[OF ax] other[OF cx] settled(1) have "has_support cw ds' a c"
              unfolding has_support_def by simp
            then show ?thesis ..
          next
            case cx: True
            from neighbors_sym[OF wf av c] cx have anx: "a \<in> set (neighbors cw x)" by simp
            show ?thesis
            proof (cases "a = y")
              case False
              with anx cx True show ?thesis by simp
            next
              case ay: True
              have "has_support cw ds' y x" unfolding has_support_def
              proof
                fix w' assume "w' \<in> dom_of ds' y"
                with other[OF ax] ay have w': "w' \<in> dom_of ds y" by simp
                with settled(1) ay cx obtain w i j where w: "w \<in> dom_of ds x"
                  and oyx: "overlaps cw (y, x) = Some (i, j)" and ag: "agree_at w' i w j"
                  unfolding has_support_def by blast
                from av cv ay cx have "y \<in> set (variables cw)" "x \<in> set (variables cw)"
                  by simp_all
                from wf_overlap_swap(1)[OF wf this oyx] o have "xi = j" "yi = i" by simp_all
                with ag have "agree_at w xi w' yi" by (simp add: agree_at_swap)
                with mem[OF w] w' have "w \<in> dom_of ds' x" by blast
                with oyx ag
                show "\<exists>c\<in>dom_of ds' x. \<exists>i j. overlaps cw (y, x) = Some (i, j) \<and> agree_at w' i c j"
                  by blast
              qed
              with ay cx show ?thesis by simp
            qed
          qed
        qed
      qed
    qed
  qed
  then show ?thesis unfolding pending_def by blast
qed

lemma ac3_loop_sound:
  "wf_crossword cw \<Longrightarrow> fst ` set ds \<subseteq> set (variables cw) \<Longrightarrow> pending cw ds arcs \<Longrightarrow>
   ac3_loop cw ds arcs = (Inr True, ds') \<Longrightarrow> arc_consistent cw ds'"
proof (induction cw ds arcs rule: ac3_loop.induct)
  case (1 cw ds)
  then show ?case by (simp add: pending_def arc_consistent_def)
next
  case (2 cw ds x y arcs)
  from "2.prems"(4) obtain b ds1 where r: "revise cw ds x y = Inr (b, ds1)"
    by (cases "revise cw ds x y") auto
  note step = pending_step[OF "2.prems"(1-3) r]
  from revise_subset(2)[OF r] "2.prems"(2) have k: "fst ` set ds1 \<subseteq> set (variables cw)"
    using keys_eq by blast
  show ?case
  proof (cases b)
    case False
    with "2.prems"(4) r have "ac3_loop cw ds1 arcs = (Inr True, ds')" by simp
    from "2.IH"(2)[OF r refl False "2.prems"(1) k _ this] step False show ?thesis by simp
  next
    case True
    from "2.prems"(4) r True obtain xd where xd: "getitem ds1 x = Inr xd"
      by (cases "getitem ds1 x") auto
    from "2.prems"(4) r True xd have ne: "length xd \<noteq> 0" by auto
    with "2.prems"(4) r True xd
    have "ac3_loop cw ds1 (arcs @ map (\<lambda>neighbour. (neighbour, x))
                                     (filter (\<lambda>item. item \<noteq> y) (neighbors cw x)))
            = (Inr True, ds')"
      by simp
    from "2.IH"(1)[OF r refl True xd ne "2.prems"(1) k _ this] step True show ?thesis by simp
  qed
qed

lemma pending_initial: "pending cw ds (initial_arcs cw ds)"
  by (auto simp: pending_def initial_arcs_def)

text \<open>
  C5. When \<^verbatim>\<open>ac3()\<close>, called without an initial arc list on a well-formed crossword,
  returns true, then for every slot \<open>x\<close> of the domain store, every neighbor \<open>y\<close> of \<open>x\<close>
  and every word \<open>w\<close> left in \<open>x\<close>'s domain, some word left in \<open>y\<close>'s domain agrees
  with \<open>w\<close> at the offsets of the overlap of \<open>x\<close> and \<open>y\<close>.
\<close>

theorem ac3_sound:
  assumes "wf_crossword cw" and "fst ` set ds \<subseteq> set (variables cw)"
    and "ac3 cw ds None = (Inr True, ds')"
  shows "arc_consistent cw ds'"
  using assms ac3_loop_sound[OF assms(1,2) pending_initial] by (simp add: ac3_def)

lemmas eval_defs = solve_def ac3_def init_domains_def enforce_node_consistency_def
    initial_arcs_def neighbors_def revise_def getitem_def char_at_def Let_def backtrack.simps
    select_unassigned_variable_def first_key_def assignment_complete_def consistent_def
    assigned_arcs_def set_eq_subset

lemma ac3_ex_cw:
  "ac3 ex_cw (enforce_node_consistency (init_domains ex_cw)) None = (Inr True, ex_ds)"
  by (simp add: ex_defs ex_ds_def eval_defs)

theorem ac3_sound_witness:
  "wf_crossword ex_cw \<and>
   fst ` set (enforce_node_consistency (init_domains ex_cw)) \<subseteq> set (variables ex_cw) \<and>
   ac3 ex_cw (enforce_node_consistency (init_domains ex_cw)) None = (Inr True, ex_ds) \<and>
   arc_consistent ex_cw ex_ds"
proof -
  have k: "fst ` set (enforce_node_consistency (init_domains ex_cw)) \<subseteq> set (variables ex_cw)"
    by (simp add: init_domains_def enforce_node_consistency_def ex_defs)
  from ac3_sound[OF wf_ex_cw k ac3_ex_cw] wf_ex_cw k ac3_ex_cw show ?thesis by simp
qed

section \<open>solve after a failed AC-3\<close>

text \<open>
  The small crossword with a word list for which arc consistency empties a domain: no
  word ends in the letter another starts with, as the crossing of \<open>ex_d\<close> and \<open>ex_b\<close>
  would need.
\<close>

definition ex_short :: crossword where
  "ex_short = \<lparr> variables = [ex_a, ex_d, ex_b], words = [''cat'', ''dog''],
                overlaps = ex_overlaps \<rparr>"

lemma ac3_loop_False_empty:
  "ac3_loop cw ds arcs = (Inr False, ds') \<Longrightarrow> \<exists>x. map_of ds' x = Some []"
proof (induction cw ds arcs rule: ac3_loop.induct)
  case (1 cw ds)
  then show ?case by simp
next
  case (2 cw ds x y arcs)
  from "2.prems" obtain b ds1 where r: "revise cw ds x y = Inr (b, ds1)"
    by (cases "revise cw ds x y") auto
  show ?case
  proof (cases b)
    case False
    with "2.prems" r have "ac3_loop cw ds1 arcs = (Inr False, ds')" by simp
    from "2.IH"(2)[OF r refl False this] show ?thesis .
  next
    case True
    from "2.prems" r True obtain xd where xd: "getitem ds1 x = Inr xd"
      by (cases "getitem ds1 x") auto
    show ?thesis
    proof (cases "length xd = 0")
      case empty: True
      with "2.prems" r True xd have "ds' = ds1" by simp
      with xd empty show ?thesis by (auto simp: getitem_Inr_iff)
    next
      case False
      with "2.prems" r True xd
      have "ac3_loop cw ds1 (arcs @ map (\<lambda>neighbour. (neighbour, x))
                                     (filter (\<lambda>item. item \<noteq> y) (neighbors cw x)))
            = (Inr False, ds')"
        by simp
      from "2.IH"(1)[OF r refl True xd False this] show ?thesis .
    qed
  qed
qed

lemma backtrack_empty_domain:
  assumes "map_of ds x = Some []"
  shows "backtrack cw ds [] = ([Enter], Inr None)"
proof -
  from assms have xin: "x \<in> fst ` set ds" by (metis map_of_eq_None_iff option.distinct(1))
  then have nc: "\<not> assignment_complete ds []" by (auto simp: assignment_complete_def list_all_iff)
  from xin have "\<exists>u\<in>fst ` set ds. u \<notin> fst ` set ([] :: assignment)" by auto
  from select_unassigned_variable_total[OF this]
  obtain v where v: "select_unassigned_variable cw ds [] = Inr v" ..
  from select_unassigned_variable_Inr(3)[OF v] xin assms
  have "length (the (map_of ds v)) = 0" by force
  moreover from getitem_key[OF select_unassigned_variable_Inr(1)[OF v]]
  obtain d where d: "getitem ds v = Inr d" by blast
  ultimately have "d = []" by (simp add: getitem_Inr_iff)
  with nc v d show ?thesis by (simp add: backtrack.simps)
qed

text \<open>
  C2 as stated says that \<^verbatim>\<open>solve\<close> does not invoke the search when \<^verbatim>\<open>ac3\<close>
  returns false. For the word list of \<open>ex_short\<close>, \<^verbatim>\<open>ac3\<close> returns false and the log
  of \<^verbatim>\<open>solve\<close> still holds one invocation of \<^verbatim>\<open>backtrack\<close>.
\<close>

theorem solve_after_failed_ac3_counterexample:
  "fst (ac3 ex_short (enforce_node_consistency (init_domains ex_short)) None) = Inr False \<and>
   fst (solve ex_short (init_domains ex_short)) = [Enter]"
  by (simp add: ex_short_def ex_a_def ex_b_def ex_d_def ex_overlaps_def eval_defs del: subset_empty)

text \<open>
  C2, amended. Whenever \<^verbatim>\<open>ac3()\<close> returns false, \<^verbatim>\<open>solve()\<close> still calls
  \<^verbatim>\<open>backtrack\<close>, once: that call selects a slot whose domain is empty, tries no word,
  makes no recursive call and returns \<^verbatim>\<open>None\<close>, so \<^verbatim>\<open>solve()\<close> reports no solution.
\<close>

theorem solve_after_failed_ac3:
  assumes "fst (ac3 cw (enforce_node_consistency ds) None) = Inr False"
  shows "solve cw ds = ([Enter], Inr None)"
proof -
  from assms obtain ds' where a: "ac3 cw (enforce_node_consistency ds) None = (Inr False, ds')"
    by (cases "ac3 cw (enforce_node_consistency ds) None") auto
  then have "ac3_loop cw (enforce_node_consistency ds)
               (initial_arcs cw (enforce_node_consistency ds)) = (Inr False, ds')"
    by (simp add: ac3_def)
  from ac3_loop_False_empty[OF this] obtain x where "map_of ds' x = Some []" ..
  from backtrack_empty_domain[OF this] a show ?thesis by (simp add: solve_def)
qed

theorem solve_after_failed_ac3_witness:
  "fst (ac3 ex_short (enforce_node_consistency (init_domains ex_short)) None) = Inr False \<and>
   solve ex_short (init_domains ex_short) = ([Enter], Inr None)"
proof -
  have h: "fst (ac3 ex_short (enforce_node_consistency (init_domains ex_short)) None) = Inr False"
    by (simp add: ex_short_def ex_a_def ex_b_def ex_d_def ex_overlaps_def eval_defs del: subset_empty)
  from solve_after_failed_ac3[OF h] h show ?thesis by simp
qed

section \<open>The order in which backtrack tries words\<close>

text \<open>
  Two slots that cross in their first cells, and three words. \<open>ex_cross_ds\<close> is the domain
  store that \<^verbatim>\<open>solve\<close> hands to \<^verbatim>\<open>backtrack\<close>: node and arc consistency remove
  nothing.
\<close>

definition ex_cross :: crossword where
  "ex_cross = \<lparr> variables = [ex_a, ex_d], words = [''dab'', ''cat'', ''cot''],
                overlaps = ex_overlaps \<rparr>"

definition ex_cross_ds :: domains where
  "ex_cross_ds = [(ex_a, [''dab'', ''cat'', ''cot'']), (ex_d, [''dab'', ''cat'', ''cot''])]"

text \<open>
  Whatever the domain store: the first word that \<^verbatim>\<open>backtrack\<close> tries is the first
  word of the selected slot's domain in iteration order.
\<close>

lemma backtrack_first_try:
  assumes "\<not> assignment_complete ds a" and "select_unassigned_variable cw ds a = Inr var"
    and "map_of ds var = Some (w # d)"
  shows "take 2 (fst (backtrack cw ds a)) = [Enter, Try var w]"
proof -
  from assms(3) have g: "getitem ds var = Inr (w # d)" by (simp add: getitem_Inr_iff)
  obtain tr r where tv: "try_values cw ds var a (w # d) = (tr, r)"
    by (cases "try_values cw ds var a (w # d)")
  then have "\<exists>t. tr = Try var w # t"
    by (auto simp: Let_def split: sum.splits prod.splits if_splits)
  then obtain t where "tr = Try var w # t" ..
  with assms(1,2) g tv show ?thesis
    by (simp add: backtrack.simps del: try_values.simps)
qed

text \<open>
  C4 says that \<^verbatim>\<open>backtrack\<close> tries the words of the selected slot in the order of
  \<^verbatim>\<open>order_domain_values\<close>. \<^verbatim>\<open>backtrack\<close> never calls that function: its loop is
  \<^verbatim>\<open>for value in self.domains[var]\<close>. Here the least-constraining order of the first
  slot is \<open>cat, cot, dab\<close>, and the search tries \<open>dab\<close> first.
\<close>

theorem backtrack_tries_domain_order:
  "ac3 ex_cross (enforce_node_consistency (init_domains ex_cross)) None = (Inr True, ex_cross_ds) \<and>
   order_domain_values ex_cross ex_cross_ds ex_a [] = Inr [''cat'', ''cot'', ''dab''] \<and>
   solve ex_cross (init_domains ex_cross) =
     ([Enter, Try ex_a ''dab'', Enter, Try ex_d ''dab'', Try ex_d ''cat'', Try ex_d ''cot'',
       Try ex_a ''cat'', Enter, Try ex_d ''dab'', Try ex_d ''cat'', Try ex_d ''cot'', Enter],
      Inr (Some [(ex_a, ''cat''), (ex_d, ''cot'')]))"
  by (simp add: ex_cross_def ex_cross_ds_def ex_a_def ex_d_def ex_overlaps_def eval_defs
    order_domain_values_def del: subset_empty)

end
